theory Spec2Isabelle
  imports Complex_Main "HOL-Library.Sublist"
begin

section \<open>Numbers and points\<close>

text \<open>
  The program is TypeScript: every coordinate is an IEEE double. The development reads
  a number as a \<^typ>\<open>real\<close>: a finite value, with exact arithmetic. Rounding error,
  \<open>NaN\<close>, \<open>undefined\<close>, the infinities and the sign of zero are not represented. The
  concrete inputs used below are small integers and short decimals, on which every
  comparison of the program comes out the same in double arithmetic. The exception is
  the section on collinear input: what it proves depends on the rounding, so it has
  the simplification in double precision, with \<open>NaN\<close> and the infinities.
  A \<open>Point\<close> is the two-element array \<open>[x, y]\<close>.
\<close>

type_synonym point = "real \<times> real"

section \<open>Path simplification (services/svgProcessor.ts, lines 5 to 54)\<close>

text \<open>
  \<open>getPerpendicularDistance\<close> is the distance from \<open>pt\<close> to the segment from
  \<open>lineStart\<close> to \<open>lineEnd\<close>: the projection parameter \<open>t\<close> is clamped to the
  segment, and a segment of length zero gives the distance to \<open>lineStart\<close>. This is
  the distance in exact arithmetic; \<open>getPerpendicularDistanceFloat\<close> in the section on
  collinear input is the distance as the program rounds it.
\<close>

definition getPerpendicularDistance :: "point \<Rightarrow> point \<Rightarrow> point \<Rightarrow> real" where
  "getPerpendicularDistance pt lineStart lineEnd =
     (let dx = fst lineEnd - fst lineStart;
          dy = snd lineEnd - snd lineStart
      in if dx = 0 \<and> dy = 0 then
           (let dx' = fst pt - fst lineStart;
                dy' = snd pt - snd lineStart
            in sqrt (dx' * dx' + dy' * dy'))
         else
           (let t = ((fst pt - fst lineStart) * dx + (snd pt - snd lineStart) * dy)
                      / (dx * dx + dy * dy);
                nearestPoint =
                  (if t < 0 then lineStart
                   else if 1 < t then lineEnd
                   else (fst lineStart + t * dx, snd lineStart + t * dy));
                dx' = fst pt - fst nearestPoint;
                dy' = snd pt - snd nearestPoint
            in sqrt (dx' * dx' + dy' * dy')))"

text \<open>
  The \<open>for\<close> loop of \<open>ramerDouglasPeucker\<close> over the interior indices
  \<open>1 \<le> i < end\<close>, with the pair \<open>(dmax, index)\<close> as its state, started at \<open>(0, 0)\<close>.
\<close>

definition farthestStep :: "point list \<Rightarrow> real \<times> nat \<Rightarrow> nat \<Rightarrow> real \<times> nat" where
  "farthestStep points acc i =
     (let d = getPerpendicularDistance (points ! i) (points ! 0) (points ! (length points - 1))
      in if fst acc < d then (d, i) else acc)"

definition farthest :: "point list \<Rightarrow> real \<times> nat" where
  "farthest points = foldl (farthestStep points) (0, 0) [1 ..< length points - 1]"

text \<open>
  The recursion of \<open>ramerDouglasPeucker\<close> is not bounded by its text: the two slices
  \<open>points.slice(0, index + 1)\<close> and \<open>points.slice(index)\<close> are shorter than \<open>points\<close>
  only when \<open>1 \<le> index < end\<close>. The function is therefore a partial function, with
  \<open>None\<close> for a call that never returns (in the browser: until the call stack is
  exhausted). \<open>recResults1.slice(0, recResults1.length - 1)\<close> is
  \<open>take (length recResults1 - 1) recResults1\<close>.
\<close>

partial_function (option) ramerDouglasPeucker :: "point list \<Rightarrow> real \<Rightarrow> point list option" where
  "ramerDouglasPeucker points epsilon =
     (if length points < 3 then Some points
      else
        (let dmax = fst (farthest points); index = snd (farthest points)
         in if epsilon < dmax then
              Option.bind (ramerDouglasPeucker (take (index + 1) points) epsilon) (\<lambda>recResults1.
              Option.bind (ramerDouglasPeucker (drop index points) epsilon) (\<lambda>recResults2.
                Some (take (length recResults1 - 1) recResults1 @ recResults2)))
            else Some [points ! 0, points ! (length points - 1)]))"

text \<open>
  The notions in which the properties of the simplification are stated: all points of a
  list on one line (every triple has cross product zero), and a point on the closed
  segment (the chord) between two points (on the line through them and inside their
  bounding box).
\<close>

definition cross :: "point \<Rightarrow> point \<Rightarrow> point \<Rightarrow> real" where
  "cross a p b = (fst p - fst a) * (snd b - snd a) - (snd p - snd a) * (fst b - fst a)"

definition collinear :: "point list \<Rightarrow> bool" where
  "collinear ps \<longleftrightarrow> list_all (\<lambda>a. list_all (\<lambda>p. list_all (\<lambda>b. cross a p b = 0) ps) ps) ps"

definition onChord :: "point \<Rightarrow> point \<Rightarrow> point \<Rightarrow> bool" where
  "onChord a b p \<longleftrightarrow>
     cross a p b = 0 \<and>
     min (fst a) (fst b) \<le> fst p \<and> fst p \<le> max (fst a) (fst b) \<and>
     min (snd a) (snd b) \<le> snd p \<and> snd p \<le> max (snd a) (snd b)"

subsection \<open>The search for the farthest interior point\<close>

lemma farthestStep_inv:
  assumes "0 \<le> fst acc" "0 < fst acc \<longrightarrow> snd acc \<in> S" "i \<in> S"
  shows "0 \<le> fst (farthestStep points acc i) \<and>
         (0 < fst (farthestStep points acc i) \<longrightarrow> snd (farthestStep points acc i) \<in> S)"
  using assms by (auto simp: farthestStep_def Let_def)

lemma farthest_foldl_inv:
  "0 \<le> fst acc \<Longrightarrow> (0 < fst acc \<longrightarrow> snd acc \<in> S) \<Longrightarrow> set is \<subseteq> S \<Longrightarrow>
     0 \<le> fst (foldl (farthestStep points) acc is) \<and>
     (0 < fst (foldl (farthestStep points) acc is) \<longrightarrow>
        snd (foldl (farthestStep points) acc is) \<in> S)"
proof (induction "is" arbitrary: acc)
  case Nil
  then show ?case by simp
next
  case (Cons i "is")
  have "i \<in> S" using Cons.prems(3) by simp
  from farthestStep_inv [OF Cons.prems(1) Cons.prems(2) this, of points]
  show ?case using Cons.IH [of "farthestStep points acc i"] Cons.prems(3) by simp
qed

lemma farthest_nonneg: "0 \<le> fst (farthest points)"
  using farthest_foldl_inv [of "(0, 0)" "{}" "[]" points]
        farthest_foldl_inv [of "(0, 0)" "set [1 ..< length points - 1]" "[1 ..< length points - 1]" points]
  by (simp add: farthest_def)

lemma farthest_index_pos:
  "0 < fst (farthest points) \<Longrightarrow>
     1 \<le> snd (farthest points) \<and> snd (farthest points) < length points - 1"
  using farthest_foldl_inv [of "(0, 0)" "set [1 ..< length points - 1]" "[1 ..< length points - 1]" points]
  by (simp add: farthest_def)

lemma farthestStep_index:
  "snd acc = 0 \<or> snd acc \<in> S \<Longrightarrow> i \<in> S \<Longrightarrow>
     snd (farthestStep points acc i) = 0 \<or> snd (farthestStep points acc i) \<in> S"
  by (auto simp: farthestStep_def Let_def)

lemma farthest_foldl_index:
  "snd acc = 0 \<or> snd acc \<in> S \<Longrightarrow> set is \<subseteq> S \<Longrightarrow>
     snd (foldl (farthestStep points) acc is) = 0 \<or> snd (foldl (farthestStep points) acc is) \<in> S"
proof (induction "is" arbitrary: acc)
  case Nil
  then show ?case by simp
next
  case (Cons i "is")
  have "i \<in> S" using Cons.prems(2) by simp
  from farthestStep_index [OF Cons.prems(1) this, of points]
  show ?case using Cons.IH [of "farthestStep points acc i"] Cons.prems(2) by simp
qed

lemma farthest_index_lt: "points \<noteq> [] \<Longrightarrow> snd (farthest points) < length points"
  using farthest_foldl_index [of "(0, 0)" "set [1 ..< length points - 1]" "[1 ..< length points - 1]" points]
  by (auto simp: farthest_def)

subsection \<open>The three ways the body of the function returns\<close>

lemma rdp_short: "length points < 3 \<Longrightarrow> ramerDouglasPeucker points epsilon = Some points"
  by (subst ramerDouglasPeucker.simps) simp

lemma rdp_collapse:
  "\<not> length points < 3 \<Longrightarrow> \<not> epsilon < fst (farthest points) \<Longrightarrow>
     ramerDouglasPeucker points epsilon = Some [points ! 0, points ! (length points - 1)]"
  by (subst ramerDouglasPeucker.simps) (simp add: Let_def)

lemma rdp_split:
  "\<not> length points < 3 \<Longrightarrow> epsilon < fst (farthest points) \<Longrightarrow>
     ramerDouglasPeucker points epsilon =
       Option.bind (ramerDouglasPeucker (take (snd (farthest points) + 1) points) epsilon) (\<lambda>recResults1.
       Option.bind (ramerDouglasPeucker (drop (snd (farthest points)) points) epsilon) (\<lambda>recResults2.
         Some (take (length recResults1 - 1) recResults1 @ recResults2)))"
  by (subst ramerDouglasPeucker.simps) (simp add: Let_def)

subsection \<open>Subsequence and end points\<close>

definition keepsEnds :: "point list \<Rightarrow> point list \<Rightarrow> bool" where
  "keepsEnds points out \<longleftrightarrow>
     subseq out points \<and> (points \<noteq> [] \<longrightarrow> out \<noteq> [] \<and> hd out = hd points \<and> last out = last points)"

lemma keepsEnds_refl: "keepsEnds points points"
  by (simp add: keepsEnds_def)

lemma keepsEnds_pair:
  assumes "\<not> length points < 3"
  shows "keepsEnds points [points ! 0, points ! (length points - 1)]"
proof -
  define a where "a = hd points"
  define mid where "mid = butlast (tl points)"
  define b where "b = last (tl points)"
  have "points \<noteq> []" using assms by auto
  moreover have "tl points \<noteq> []" using assms by (cases points) auto
  ultimately have ps: "points = a # mid @ [b]"
    by (simp add: a_def mid_def b_def)
  have "subseq [a, b] (a # mid @ [b])"
    by (simp add: subseq_rev_drop_many subseq_drop_many)
  then show ?thesis
    by (simp add: keepsEnds_def ps nth_append)
qed

lemma keepsEnds_join:
  assumes i: "i < length points"
    and r1: "keepsEnds (take (i + 1) points) r1"
    and r2: "keepsEnds (drop i points) r2"
  shows "keepsEnds points (take (length r1 - 1) r1 @ r2)"
proof -
  have t: "take (i + 1) points = take i points @ [points ! i]"
    using i by (simp add: take_Suc_conv_app_nth)
  have d: "drop i points \<noteq> []" "hd (drop i points) = points ! i"
    using i by (simp_all add: hd_drop_conv_nth)
  from r1 t have r1': "keepsEnds (take i points @ [points ! i]) r1"
    by simp
  then have r1ne: "r1 \<noteq> []" and r1last: "last r1 = points ! i"
    and r1hd: "hd r1 = hd (take i points @ [points ! i])"
    and r1sub: "subseq r1 (take i points @ [points ! i])"
    unfolding keepsEnds_def by simp_all
  from r2 d have r2ne: "r2 \<noteq> []" and r2hd: "hd r2 = points ! i"
    and r2last: "last r2 = last (drop i points)" and r2sub: "subseq r2 (drop i points)"
    by (simp_all add: keepsEnds_def)
  have bl: "take (length r1 - 1) r1 = butlast r1"
    by (simp add: butlast_conv_take)
  have "subseq (butlast r1 @ [points ! i]) (take i points @ [points ! i])"
    using r1sub r1ne r1last by (metis append_butlast_last_id)
  then have "subseq (butlast r1) (take i points)"
    by simp
  then have "subseq (butlast r1 @ r2) (take i points @ drop i points)"
    using r2sub by (rule list_emb_append_mono)
  then have sub: "subseq (take (length r1 - 1) r1 @ r2) points"
    unfolding bl by simp
  have pne: "points \<noteq> []" using i by auto
  have lastp: "last (drop i points) = last points"
    using i by simp
  have hdp: "hd (butlast r1 @ r2) = hd points"
  proof (cases "butlast r1 = []")
    case True
    then have "r1 = [points ! i]" using r1ne r1last
      by (metis append_butlast_last_id append_Nil)
    then have "hd (take i points @ [points ! i]) = points ! i" using r1hd by simp
    moreover have "hd (take i points @ [points ! i]) = hd points"
      using pne by (cases points; cases i) simp_all
    ultimately show ?thesis using True r2hd by simp
  next
    case False
    then have "hd (butlast r1 @ r2) = hd r1"
      using r1ne by (metis append_butlast_last_id hd_append2)
    moreover have "hd (take i points @ [points ! i]) = hd points"
      using pne by (cases points; cases i) simp_all
    ultimately show ?thesis using r1hd by simp
  qed
  show ?thesis
    using sub hdp r2ne r2last lastp unfolding keepsEnds_def bl by simp
qed

lemma rdp_partial:
  assumes "ramerDouglasPeucker points epsilon = Some out"
  shows "keepsEnds points out"
proof (rule ramerDouglasPeucker.raw_induct [OF _ assms])
  fix rdp points epsilon out
  assume IH: "\<And>ps e r. rdp ps e = Some r \<Longrightarrow> keepsEnds ps r"
    and body: "(if length points < 3 then Some points
      else
        (let dmax = fst (farthest points); index = snd (farthest points)
         in if epsilon < dmax then
              Option.bind (rdp (take (index + 1) points) epsilon) (\<lambda>recResults1.
              Option.bind (rdp (drop index points) epsilon) (\<lambda>recResults2.
                Some (take (length recResults1 - 1) recResults1 @ recResults2)))
            else Some [points ! 0, points ! (length points - 1)])) = Some out"
  show "keepsEnds points out"
  proof (cases "length points < 3")
    case True
    with body show ?thesis by (simp add: keepsEnds_refl)
  next
    case long: False
    show ?thesis
    proof (cases "epsilon < fst (farthest points)")
      case False
      with long body show ?thesis
        using keepsEnds_pair [OF long] by (auto simp: Let_def)
    next
      case True
      with long body obtain r1 r2 where
        r1: "rdp (take (snd (farthest points) + 1) points) epsilon = Some r1" and
        r2: "rdp (drop (snd (farthest points)) points) epsilon = Some r2" and
        out: "out = take (length r1 - 1) r1 @ r2"
        by (auto simp: Let_def split: bind_splits)
      have "points \<noteq> []" using long by auto
      then have i: "snd (farthest points) < length points" by (rule farthest_index_lt)
      show ?thesis
        unfolding out using i IH [OF r1] IH [OF r2] by (rule keepsEnds_join)
    qed
  qed
qed

lemma rdp_returns:
  "0 \<le> epsilon \<Longrightarrow> \<exists>out. ramerDouglasPeucker points epsilon = Some out"
proof (induction "length points" arbitrary: points rule: less_induct)
  case less
  show ?case
  proof (cases "length points < 3")
    case True
    then show ?thesis by (simp add: rdp_short)
  next
    case long: False
    show ?thesis
    proof (cases "epsilon < fst (farthest points)")
      case False
      with long show ?thesis by (simp add: rdp_collapse)
    next
      case True
      with less.prems have "0 < fst (farthest points)" by simp
      then have i: "1 \<le> snd (farthest points)" "snd (farthest points) < length points - 1"
        using farthest_index_pos by blast+
      have "length (take (snd (farthest points) + 1) points) < length points"
        using i by simp
      from less.hyps [OF this less.prems] obtain r1 where
        r1: "ramerDouglasPeucker (take (snd (farthest points) + 1) points) epsilon = Some r1" ..
      have "length (drop (snd (farthest points)) points) < length points"
        using i by simp
      from less.hyps [OF this less.prems] obtain r2 where
        r2: "ramerDouglasPeucker (drop (snd (farthest points)) points) epsilon = Some r2" ..
      show ?thesis
        unfolding rdp_split [OF long True] r1 r2 by simp
    qed
  qed
qed

text \<open>
  C1 (amended): whenever \<open>ramerDouglasPeucker\<close> returns, its result is a subsequence
  of the input and, for a non-empty input, starts with the first and ends with the last
  input point; and for every \<open>epsilon \<ge> 0\<close> it does return.
\<close>

theorem ramerDouglasPeucker_subsequence:
  "(\<forall>out. ramerDouglasPeucker points epsilon = Some out \<longrightarrow>
      subseq out points \<and>
      (points \<noteq> [] \<longrightarrow> out \<noteq> [] \<and> hd out = hd points \<and> last out = last points)) \<and>
   (0 \<le> epsilon \<longrightarrow> (\<exists>out. ramerDouglasPeucker points epsilon = Some out))"
  using rdp_partial [of points epsilon] rdp_returns [of epsilon points]
  by (simp add: keepsEnds_def)

lemma sqrt25: "sqrt 25 = 5"
  using real_sqrt_abs [of 5] by simp

lemma farthest_peak: "farthest [(0, 0), (1, 5), (2, 0)] = (5, 1)"
  by (simp add: farthest_def farthestStep_def getPerpendicularDistance_def sqrt25)

lemma rdp_peak:
  "ramerDouglasPeucker [(0, 0), (1, 5), (2, 0)] 1 = Some [(0, 0), (1, 5), (2, 0)]"
  by (simp add: rdp_split farthest_peak rdp_short)

theorem ramerDouglasPeucker_subsequence_witness:
  "(0::real) \<le> 1 \<and>
   ramerDouglasPeucker [(0, 0), (1, 5), (2, 0)] 1 = Some [(0, 0), (1, 5), (2, 0)] \<and>
   subseq [(0, 0), (1, 5), (2, 0)] [(0, 0), (1, 5), (2 :: real, 0 :: real)] \<and>
   hd [(0, 0), (1, 5), (2, 0)] = (0 :: real, 0 :: real) \<and>
   last [(0, 0), (1, 5), (2, 0)] = (2 :: real, 0 :: real)"
  using ramerDouglasPeucker_subsequence [of "[(0, 0), (1, 5), (2, 0)]" 1]
  by (simp add: rdp_peak)

text \<open>
  C1 as stated, for every epsilon, fails: with a negative epsilon and no interior point
  at a positive distance, \<open>index\<close> stays \<open>0\<close>, the second recursive call receives
  \<open>points.slice(0)\<close>, the whole input again, and the call never returns.
\<close>

lemma farthest_zero3: "farthest [(0, 0), (0, 0), (0, 0)] = (0, 0)"
  by (simp add: farthest_def farthestStep_def getPerpendicularDistance_def)

lemma rdp_diverges:
  assumes "ramerDouglasPeucker points epsilon = Some out"
  shows "\<not> (points = [(0, 0), (0, 0), (0, 0)] \<and> epsilon = - 1)"
proof (rule ramerDouglasPeucker.raw_induct [OF _ assms])
  fix rdp points epsilon out
  assume IH: "\<And>ps e r. rdp ps e = Some r \<Longrightarrow> \<not> (ps = [(0, 0), (0, 0), (0, 0)] \<and> e = - 1)"
    and body: "(if length points < 3 then Some points
      else
        (let dmax = fst (farthest points); index = snd (farthest points)
         in if epsilon < dmax then
              Option.bind (rdp (take (index + 1) points) epsilon) (\<lambda>recResults1.
              Option.bind (rdp (drop index points) epsilon) (\<lambda>recResults2.
                Some (take (length recResults1 - 1) recResults1 @ recResults2)))
            else Some [points ! 0, points ! (length points - 1)])) = Some out"
  show "\<not> (points = [(0, 0), (0, 0), (0, 0)] \<and> epsilon = - 1)"
  proof
    assume bad: "points = [(0, 0), (0, 0), (0, 0)] \<and> epsilon = - 1"
    with body obtain r2 where "rdp [(0, 0), (0, 0), (0, 0)] (- 1) = Some r2"
      by (auto simp: farthest_zero3 Let_def split: bind_splits)
    from IH [OF this] show False by simp
  qed
qed

theorem ramerDouglasPeucker_negative_epsilon_counterexample:
  "ramerDouglasPeucker [(0, 0), (0, 0), (0, 0)] (- 1) = None"
  using rdp_diverges [of "[(0, 0), (0, 0), (0, 0)]" "- 1"]
  by (cases "ramerDouglasPeucker [(0, 0), (0, 0), (0, 0)] (- 1)") auto

section \<open>Collinear input in double precision\<close>

text \<open>
  In exact arithmetic a point on the chord has distance zero from it. The program
  computes the distance in IEEE 754 double precision, where it is only close to zero, so
  what happens to collinear input depends on the rounding. This section therefore has the
  simplification as the program computes it: a \<open>number\<close> is a finite value, an infinity
  or \<open>NaN\<close>, and every operation rounds its exact result to the nearest double, ties to
  even. The sign of a zero is not represented: the comparisons of the source do not
  see it, and its one division divides by a sum of squares, which is never the negative
  zero. \<open>Math.sqrt\<close> is the correctly rounded square root.
\<close>

subsection \<open>Doubles\<close>

datatype number = Num real | PosInf | NegInf | NaN

text \<open>
  A real \<open>x\<close> other than zero lies in a binade \<open>2^e \<le> \<bar>x\<bar> < 2^(e + 1)\<close>, and the
  doubles of that binade are the multiples of \<open>ulp x = 2^(e - 52)\<close>; below \<open>e = -1022\<close>
  they are the multiples of \<open>2^(-1074)\<close>, the subnormal numbers. \<open>nearest x\<close> is the
  multiple of \<open>ulp x\<close> nearest to \<open>x\<close>, the one with the even multiplier when two are
  equally near. \<open>fl x\<close> is what an operation with the exact result \<open>x\<close> returns: an
  infinity when \<open>nearest x\<close> is beyond the largest double, \<open>(2^53 - 1) * 2^971\<close>. A real
  is a double when rounding does not change it.
\<close>

definition binade :: "real \<Rightarrow> int" where
  "binade x = (if x = 0 then - 1022 else max \<lfloor>log 2 \<bar>x\<bar>\<rfloor> (- 1022))"

definition ulp :: "real \<Rightarrow> real" where
  "ulp x = 2 powr (of_int (binade x) - 52)"

definition roundTiesEven :: "real \<Rightarrow> int" where
  "roundTiesEven y =
     (let n = \<lfloor>y\<rfloor>
      in if y - of_int n < 1 / 2 then n
         else if 1 / 2 < y - of_int n then n + 1
         else if even n then n else n + 1)"

definition nearest :: "real \<Rightarrow> real" where
  "nearest x = of_int (roundTiesEven (x / ulp x)) * ulp x"

definition maxDouble :: real where
  "maxDouble = (2 ^ 53 - 1) * 2 ^ 971"

definition fl :: "real \<Rightarrow> number" where
  "fl x =
     (let y = nearest x
      in if maxDouble < y then PosInf else if y < - maxDouble then NegInf else Num y)"

definition isDouble :: "real \<Rightarrow> bool" where
  "isDouble x \<longleftrightarrow> fl x = Num x"

text \<open>
  The operations \<open>+\<close>, \<open>-\<close>, \<open>*\<close>, \<open>/\<close>, \<open>Math.sqrt\<close> and \<open><\<close> on numbers. An operation
  on \<open>NaN\<close> gives \<open>NaN\<close>, as do \<open>Infinity - Infinity\<close>, \<open>Infinity * 0\<close>, \<open>0 / 0\<close>,
  \<open>Infinity / Infinity\<close> and the square root of a negative number; a comparison with
  \<open>NaN\<close> is false.
\<close>

definition infinity :: "bool \<Rightarrow> number" where
  "infinity positive = (if positive then PosInf else NegInf)"

fun fneg :: "number \<Rightarrow> number" where
  "fneg (Num x) = Num (- x)"
| "fneg PosInf = NegInf"
| "fneg NegInf = PosInf"
| "fneg NaN = NaN"

fun fadd :: "number \<Rightarrow> number \<Rightarrow> number" where
  "fadd (Num x) (Num y) = fl (x + y)"
| "fadd NaN b = NaN"
| "fadd a NaN = NaN"
| "fadd PosInf NegInf = NaN"
| "fadd NegInf PosInf = NaN"
| "fadd PosInf b = PosInf"
| "fadd a PosInf = PosInf"
| "fadd NegInf b = NegInf"
| "fadd a NegInf = NegInf"

definition fsub :: "number \<Rightarrow> number \<Rightarrow> number" where
  "fsub a b = fadd a (fneg b)"

fun fmul :: "number \<Rightarrow> number \<Rightarrow> number" where
  "fmul (Num x) (Num y) = fl (x * y)"
| "fmul NaN b = NaN"
| "fmul a NaN = NaN"
| "fmul PosInf (Num y) = (if y = 0 then NaN else infinity (0 < y))"
| "fmul NegInf (Num y) = (if y = 0 then NaN else infinity (y < 0))"
| "fmul (Num x) PosInf = (if x = 0 then NaN else infinity (0 < x))"
| "fmul (Num x) NegInf = (if x = 0 then NaN else infinity (x < 0))"
| "fmul PosInf PosInf = PosInf"
| "fmul NegInf NegInf = PosInf"
| "fmul PosInf NegInf = NegInf"
| "fmul NegInf PosInf = NegInf"

fun fdiv :: "number \<Rightarrow> number \<Rightarrow> number" where
  "fdiv (Num x) (Num y) =
     (if y = 0 then (if x = 0 then NaN else infinity (0 < x)) else fl (x / y))"
| "fdiv NaN b = NaN"
| "fdiv a NaN = NaN"
| "fdiv (Num x) b = Num 0"
| "fdiv PosInf (Num y) = infinity (0 \<le> y)"
| "fdiv NegInf (Num y) = infinity (y < 0)"
| "fdiv a b = NaN"

fun fsqrt :: "number \<Rightarrow> number" where
  "fsqrt (Num x) = (if x < 0 then NaN else fl (sqrt x))"
| "fsqrt PosInf = PosInf"
| "fsqrt a = NaN"

fun fless :: "number \<Rightarrow> number \<Rightarrow> bool" where
  "fless (Num x) (Num y) \<longleftrightarrow> x < y"
| "fless NaN b \<longleftrightarrow> False"
| "fless a NaN \<longleftrightarrow> False"
| "fless a NegInf \<longleftrightarrow> False"
| "fless PosInf b \<longleftrightarrow> False"
| "fless a b \<longleftrightarrow> True"

subsection \<open>The simplification on doubles (services/svgProcessor.ts, lines 5 to 54)\<close>

text \<open>
  The three functions of the section on path simplification again, with each operation
  of the source as the operation on doubles, in the order in which the source evaluates
  them. \<open>dx === 0\<close> holds for a zero of either sign and for no other number.
\<close>

type_synonym fpoint = "number \<times> number"

definition getPerpendicularDistanceFloat :: "fpoint \<Rightarrow> fpoint \<Rightarrow> fpoint \<Rightarrow> number" where
  "getPerpendicularDistanceFloat pt lineStart lineEnd =
     (let dx = fsub (fst lineEnd) (fst lineStart);
          dy = fsub (snd lineEnd) (snd lineStart)
      in if dx = Num 0 \<and> dy = Num 0 then
           (let dx' = fsub (fst pt) (fst lineStart);
                dy' = fsub (snd pt) (snd lineStart)
            in fsqrt (fadd (fmul dx' dx') (fmul dy' dy')))
         else
           (let t = fdiv (fadd (fmul (fsub (fst pt) (fst lineStart)) dx)
                               (fmul (fsub (snd pt) (snd lineStart)) dy))
                         (fadd (fmul dx dx) (fmul dy dy));
                nearestPoint =
                  (if fless t (Num 0) then lineStart
                   else if fless (Num 1) t then lineEnd
                   else (fadd (fst lineStart) (fmul t dx), fadd (snd lineStart) (fmul t dy)));
                dx' = fsub (fst pt) (fst nearestPoint);
                dy' = fsub (snd pt) (snd nearestPoint)
            in fsqrt (fadd (fmul dx' dx') (fmul dy' dy'))))"

definition farthestStepFloat :: "fpoint list \<Rightarrow> number \<times> nat \<Rightarrow> nat \<Rightarrow> number \<times> nat" where
  "farthestStepFloat points acc i =
     (let d = getPerpendicularDistanceFloat (points ! i) (points ! 0) (points ! (length points - 1))
      in if fless (fst acc) d then (d, i) else acc)"

definition farthestFloat :: "fpoint list \<Rightarrow> number \<times> nat" where
  "farthestFloat points = foldl (farthestStepFloat points) (Num 0, 0) [1 ..< length points - 1]"

partial_function (option) ramerDouglasPeuckerFloat :: "fpoint list \<Rightarrow> number \<Rightarrow> fpoint list option" where
  "ramerDouglasPeuckerFloat points epsilon =
     (if length points < 3 then Some points
      else
        (let dmax = fst (farthestFloat points); index = snd (farthestFloat points)
         in if fless epsilon dmax then
              Option.bind (ramerDouglasPeuckerFloat (take (index + 1) points) epsilon) (\<lambda>recResults1.
              Option.bind (ramerDouglasPeuckerFloat (drop index points) epsilon) (\<lambda>recResults2.
                Some (take (length recResults1 - 1) recResults1 @ recResults2)))
            else Some [points ! 0, points ! (length points - 1)]))"

text \<open>
  A point with real coordinates as a point of the program. The coordinates of a point
  of the program are doubles; the results below hold for all real coordinates.
\<close>

definition numPoint :: "point \<Rightarrow> fpoint" where
  "numPoint p = (Num (fst p), Num (snd p))"


subsection \<open>The error of rounding\<close>


lemma roundTiesEven_error: "\<bar>of_int (roundTiesEven y) - y\<bar> \<le> 1 / 2"
  unfolding roundTiesEven_def Let_def by (auto; linarith)

lemma roundTiesEven_nonneg: "0 \<le> y \<Longrightarrow> 0 \<le> roundTiesEven y"
  unfolding roundTiesEven_def Let_def by (auto; linarith)

lemma roundTiesEven_nonpos: "y \<le> 0 \<Longrightarrow> roundTiesEven y \<le> 0"
  unfolding roundTiesEven_def Let_def by (auto; linarith)

lemma roundTiesEven_int: "roundTiesEven (of_int m) = m"
  unfolding roundTiesEven_def Let_def by simp

lemma ulp_pos: "0 < ulp x"
  by (simp add: ulp_def)

lemma ulp_bound: "ulp x \<le> \<bar>x\<bar> / 2 ^ 52 + 1 / 2 ^ 1074"
proof (cases "x = 0 \<or> \<lfloor>log 2 \<bar>x\<bar>\<rfloor> \<le> - 1022")
  case True
  then have "binade x = - 1022" unfolding binade_def by (auto simp only: max_absorb2 split: if_splits)
  then have "ulp x = 2 powr (- 1074)" by (simp add: ulp_def)
  also have "\<dots> = 1 / 2 ^ 1074"
    by (simp add: powr_minus_divide)
  finally show ?thesis by simp
next
  case False
  then have b: "binade x = \<lfloor>log 2 \<bar>x\<bar>\<rfloor>" by (simp add: binade_def)
  have nz: "x \<noteq> 0" using False by auto
  have "2 powr (of_int \<lfloor>log 2 \<bar>x\<bar>\<rfloor>) \<le> 2 powr (log 2 \<bar>x\<bar>)"
    by (rule powr_mono) simp_all
  also have "\<dots> = \<bar>x\<bar>" using nz by simp
  finally have le: "2 powr (of_int \<lfloor>log 2 \<bar>x\<bar>\<rfloor>) \<le> \<bar>x\<bar>" .
  have "ulp x = 2 powr (of_int \<lfloor>log 2 \<bar>x\<bar>\<rfloor>) * 2 powr (- 52)"
    unfolding ulp_def b by (simp add: powr_diff powr_minus_divide)
  also have "\<dots> = 2 powr (of_int \<lfloor>log 2 \<bar>x\<bar>\<rfloor>) / 2 ^ 52"
    by (simp add: powr_minus_divide)
  also have "\<dots> \<le> \<bar>x\<bar> / 2 ^ 52"
    using le by (simp add: divide_right_mono)
  finally show ?thesis by simp
qed

lemma nearest_ulp: "\<bar>nearest x - x\<bar> \<le> ulp x / 2"
proof -
  have "nearest x - x = (of_int (roundTiesEven (x / ulp x)) - x / ulp x) * ulp x"
    using ulp_pos [of x] by (simp add: nearest_def algebra_simps)
  then have "\<bar>nearest x - x\<bar> = \<bar>of_int (roundTiesEven (x / ulp x)) - x / ulp x\<bar> * ulp x"
    using ulp_pos [of x] by (simp add: abs_mult)
  also have "\<dots> \<le> 1 / 2 * ulp x"
    using roundTiesEven_error [of "x / ulp x"] ulp_pos [of x]
    by (intro mult_right_mono) simp_all
  finally show ?thesis by simp
qed

lemma nearest_zero: "nearest 0 = 0"
  by (simp add: nearest_def roundTiesEven_def)

lemma nearest_error: "\<bar>nearest x - x\<bar> \<le> \<bar>x\<bar> / 2 ^ 53 + 1 / 2 ^ 1075"
  using nearest_ulp [of x] ulp_bound [of x] by simp

lemma nearest_nonneg: "0 \<le> x \<Longrightarrow> 0 \<le> nearest x"
  using roundTiesEven_nonneg [of "x / ulp x"] ulp_pos [of x]
  by (simp add: nearest_def)

lemma nearest_nonpos: "x \<le> 0 \<Longrightarrow> nearest x \<le> 0"
  using roundTiesEven_nonpos [of "x / ulp x"] ulp_pos [of x]
  by (simp add: nearest_def mult_le_0_iff divide_le_0_iff)

text \<open>A bound \<open>B\<close> on the argument that is not itself tiny gives the relative error.\<close>

lemma nearest_close:
  assumes "\<bar>x\<bar> \<le> B" "1 / 2 ^ 1000 \<le> B"
  shows "\<bar>nearest x - x\<bar> \<le> B / 2 ^ 52"
proof -
  have "\<bar>nearest x - x\<bar> \<le> \<bar>x\<bar> / 2 ^ 53 + 1 / 2 ^ 1075" by (rule nearest_error)
  also have "\<dots> \<le> B / 2 ^ 53 + B / 2 ^ 53"
    using assms by (intro add_mono) (simp_all add: field_simps)
  finally show ?thesis by simp
qed

lemma fl_finite:
  assumes "\<bar>x\<bar> \<le> 2 ^ 1000"
  shows "fl x = Num (nearest x)"
proof -
  have "\<bar>nearest x - x\<bar> \<le> 2 ^ 1000 / 2 ^ 52"
    using assms by (intro nearest_close) simp_all
  then have "\<bar>nearest x\<bar> \<le> 2 ^ 1000 + 2 ^ 1000 / 2 ^ 52"
    using assms by linarith
  also have "\<dots> \<le> maxDouble" by (simp add: maxDouble_def)
  finally have "\<bar>nearest x\<bar> \<le> maxDouble" .
  then show ?thesis by (auto simp: fl_def Let_def)
qed

subsection \<open>Evaluating the rounding\<close>

lemma binade_scaled:
  assumes "2 ^ 52 \<le> \<bar>x\<bar> * 2 ^ n" "\<bar>x\<bar> * 2 ^ n < 2 ^ 53" "n \<le> 1074"
  shows "binade x = 52 - int n"
proof -
  have pos: "0 < \<bar>x\<bar>"
  proof (rule ccontr)
    assume "\<not> 0 < \<bar>x\<bar>"
    then have "\<bar>x\<bar> * 2 ^ n = 0" by simp
    with assms(1) show False by simp
  qed
  have p: "(2::real) powr (of_int (52 - int n)) = 2 ^ 52 / 2 ^ n"
    by (simp add: powr_diff powr_realpow)
  have q: "(2::real) powr (of_int (52 - int n) + 1) = 2 ^ 53 / 2 ^ n"
    by (simp add: powr_diff powr_add powr_realpow)
  have "2 powr (of_int (52 - int n)) \<le> \<bar>x\<bar>"
    unfolding p using assms(1) by (simp add: field_simps)
  then have lo: "of_int (52 - int n) \<le> log 2 \<bar>x\<bar>"
    using pos by (simp only: le_log_iff [of 2 "\<bar>x\<bar>"] one_less_numeral_iff semiring_norm)
  have "\<bar>x\<bar> < 2 powr (of_int (52 - int n) + 1)"
    unfolding q using assms(2) by (simp add: field_simps)
  then have hi: "log 2 \<bar>x\<bar> < of_int (52 - int n) + 1"
    using pos by (simp only: log_less_iff [of 2 "\<bar>x\<bar>"] one_less_numeral_iff semiring_norm)
  have "\<lfloor>log 2 \<bar>x\<bar>\<rfloor> = 52 - int n"
    using lo hi by (rule floor_unique)
  moreover have "x \<noteq> 0" using pos by simp
  ultimately show ?thesis using assms(3) by (simp add: binade_def)
qed

lemma ulp_scaled:
  assumes "2 ^ 52 \<le> \<bar>x\<bar> * 2 ^ n" "\<bar>x\<bar> * 2 ^ n < 2 ^ 53" "n \<le> 1074"
  shows "ulp x = 1 / 2 ^ n"
  unfolding ulp_def binade_scaled [OF assms]
  by (simp add: powr_minus_divide powr_realpow)

lemma nearest_scaled:
  assumes "2 ^ 52 \<le> \<bar>x\<bar> * 2 ^ n" "\<bar>x\<bar> * 2 ^ n < 2 ^ 53" "n \<le> 1074"
  shows "nearest x = of_int (roundTiesEven (x * 2 ^ n)) / 2 ^ n"
  unfolding nearest_def ulp_scaled [OF assms] by simp

lemma nearest_exact:
  assumes "x * 2 ^ n = of_int m" "\<bar>m\<bar> < 2 ^ 53" "n \<le> 1074"
  shows "nearest x = x"
proof (cases "x = 0")
  case True
  then show ?thesis by (simp add: nearest_zero)
next
  case False
  then have pos: "0 < \<bar>x\<bar>" by simp
  have "\<bar>x\<bar> * 2 ^ n = \<bar>of_int m :: real\<bar>"
    using assms(1) by (simp add: abs_mult flip: assms(1))
  also have "\<dots> < 2 ^ 53"
    using assms(2) by (metis of_int_abs of_int_less_numeral_power_cancel_iff)
  finally have "\<bar>x\<bar> * 2 ^ n < 2 ^ 53" .
  then have "\<bar>x\<bar> < 2 ^ 53 / 2 ^ n" by (simp add: field_simps)
  also have "\<dots> = 2 powr (of_int (53 - int n))"
    by (simp add: powr_diff powr_realpow)
  finally have "log 2 \<bar>x\<bar> < of_int (53 - int n)"
    using pos by (simp only: log_less_iff [of 2 "\<bar>x\<bar>"] one_less_numeral_iff semiring_norm)
  then have "\<lfloor>log 2 \<bar>x\<bar>\<rfloor> < 53 - int n"
    by (simp only: floor_less_iff)
  then have "binade x \<le> 52 - int n"
    using assms(3) False by (simp add: binade_def)
  moreover define k where "k = nat (52 - int n - binade x)"
  ultimately have k: "binade x = 52 - int n - int k"
    by simp
  have "ulp x = 2 powr (- (of_nat (n + k)))"
    unfolding ulp_def k by simp
  then have u: "ulp x = 1 / 2 ^ (n + k)"
    by (simp only: powr_minus_divide powr_realpow zero_less_numeral)
  have "x / ulp x = x * 2 ^ n * 2 ^ k"
    unfolding u by (simp add: power_add)
  also have "\<dots> = of_int (m * 2 ^ k)"
    unfolding assms(1) by simp
  finally have "nearest x = of_int (m * 2 ^ k) * ulp x"
    unfolding nearest_def by (simp only: roundTiesEven_int)
  also have "\<dots> = x * 2 ^ n * 2 ^ k * ulp x"
    unfolding assms(1) by simp
  also have "\<dots> = x"
    unfolding u by (simp add: power_add)
  finally show ?thesis .
qed

lemma fl_exact:
  assumes "x * 2 ^ n = of_int m" "\<bar>m\<bar> < 2 ^ 53" "n \<le> 1074"
  shows "fl x = Num x"
proof -
  have "\<bar>x\<bar> * 2 ^ n = \<bar>of_int m :: real\<bar>"
    using assms(1) by (simp add: abs_mult flip: assms(1))
  also have "\<dots> < 2 ^ 53"
    using assms(2) by (metis of_int_abs of_int_less_numeral_power_cancel_iff)
  finally have "\<bar>x\<bar> * 2 ^ n < 2 ^ 53" .
  moreover have "\<bar>x\<bar> \<le> \<bar>x\<bar> * 2 ^ n"
    by (simp add: mult_le_cancel_left1)
  ultimately have "\<bar>x\<bar> \<le> maxDouble"
    by (simp add: maxDouble_def)
  then show ?thesis
    unfolding fl_def nearest_exact [OF assms] by (auto simp: Let_def)
qed

lemma fl_zero: "fl 0 = Num 0"
  using fl_exact [of 0 0 0] by simp

lemma fl_one: "fl 1 = Num 1"
  using fl_exact [of 1 0 1] by simp

lemma fl_numeral: "(numeral k :: int) < 2 ^ 53 \<Longrightarrow> fl (numeral k) = Num (numeral k)"
  using fl_exact [of "numeral k" 0 "numeral k"] by simp

lemma fl_scaled:
  assumes "2 ^ 52 \<le> \<bar>x\<bar> * 2 ^ n" "\<bar>x\<bar> * 2 ^ n < 2 ^ 53" "n \<le> 1074"
  shows "fl x = Num (of_int (roundTiesEven (x * 2 ^ n)) / 2 ^ n)"
proof -
  have "\<bar>x\<bar> \<le> \<bar>x\<bar> * 2 ^ n"
    by (simp add: mult_le_cancel_left1)
  with assms(2) have "\<bar>x\<bar> \<le> 2 ^ 1000" by simp
  then show ?thesis
    by (simp only: fl_finite nearest_scaled [OF assms])
qed

lemma binade_scaled_up:
  assumes "2 ^ 52 * 2 ^ k \<le> \<bar>x\<bar>" "\<bar>x\<bar> < 2 ^ 53 * 2 ^ k"
  shows "binade x = 52 + int k"
proof -
  have pos: "0 < \<bar>x\<bar>"
    using assms(1) by (rule less_le_trans [rotated]) simp
  have p: "(2::real) powr (of_int (52 + int k)) = 2 ^ 52 * 2 ^ k"
    by (simp add: powr_add powr_realpow)
  have q: "(2::real) powr (of_int (52 + int k) + 1) = 2 ^ 53 * 2 ^ k"
    by (simp add: powr_add powr_realpow)
  have "2 powr (of_int (52 + int k)) \<le> \<bar>x\<bar>"
    unfolding p using assms(1) .
  then have lo: "of_int (52 + int k) \<le> log 2 \<bar>x\<bar>"
    using pos by (simp only: le_log_iff [of 2 "\<bar>x\<bar>"] one_less_numeral_iff semiring_norm)
  have "\<bar>x\<bar> < 2 powr (of_int (52 + int k) + 1)"
    unfolding q using assms(2) .
  then have hi: "log 2 \<bar>x\<bar> < of_int (52 + int k) + 1"
    using pos by (simp only: log_less_iff [of 2 "\<bar>x\<bar>"] one_less_numeral_iff semiring_norm)
  have "\<lfloor>log 2 \<bar>x\<bar>\<rfloor> = 52 + int k"
    using lo hi by (rule floor_unique)
  moreover have "x \<noteq> 0" using pos by simp
  ultimately show ?thesis by (simp add: binade_def)
qed

lemma nearest_scaled_up:
  assumes "2 ^ 52 * 2 ^ k \<le> \<bar>x\<bar>" "\<bar>x\<bar> < 2 ^ 53 * 2 ^ k"
  shows "nearest x = of_int (roundTiesEven (x / 2 ^ k)) * 2 ^ k"
proof -
  have "ulp x = 2 ^ k"
    unfolding ulp_def binade_scaled_up [OF assms] by (simp add: powr_realpow)
  then show ?thesis by (simp add: nearest_def)
qed

lemma fl_scaled_up:
  assumes "2 ^ 52 * 2 ^ k \<le> \<bar>x\<bar>" "\<bar>x\<bar> < 2 ^ 53 * 2 ^ k" "k \<le> 900"
  shows "fl x = Num (of_int (roundTiesEven (x / 2 ^ k)) * 2 ^ k)"
proof -
  have "(2::real) ^ 53 * 2 ^ k \<le> 2 ^ 53 * 2 ^ 900"
    using assms(3) by (intro mult_left_mono power_increasing) simp_all
  also have "\<dots> \<le> (2::real) ^ 1000" by simp
  finally have "\<bar>x\<bar> \<le> 2 ^ 1000" using assms(2) by linarith
  then show ?thesis
    by (simp only: fl_finite nearest_scaled_up [OF assms(1,2)])
qed

lemma nearest_exact_up:
  assumes "x = of_int m * 2 ^ k" "\<bar>m\<bar> < 2 ^ 53"
  shows "nearest x = x"
proof (cases "m = 0")
  case True
  then show ?thesis using assms(1) by (simp add: nearest_zero)
next
  case False
  then have m1: "1 \<le> \<bar>of_int m :: real\<bar>"
    by (metis abs_eq_0 less_le_not_le not_le_imp_less of_int_0 of_int_lessD)
  have ax: "\<bar>x\<bar> = \<bar>of_int m :: real\<bar> * 2 ^ k"
    unfolding assms(1) by (simp add: abs_mult)
  have pos: "0 < \<bar>x\<bar>" unfolding ax using m1 by simp
  have "1 * 2 ^ k \<le> \<bar>of_int m :: real\<bar> * 2 ^ k"
    using m1 by (intro mult_right_mono) simp_all
  then have "2 powr (of_int (int k)) \<le> \<bar>x\<bar>"
    unfolding ax by (simp add: powr_realpow)
  then have "of_int (int k) \<le> log 2 \<bar>x\<bar>"
    using pos by (simp only: le_log_iff [of 2 "\<bar>x\<bar>"] one_less_numeral_iff semiring_norm)
  then have lo: "int k \<le> \<lfloor>log 2 \<bar>x\<bar>\<rfloor>"
    by (simp only: le_floor_iff)
  have "\<bar>of_int m :: real\<bar> < 2 ^ 53"
    using assms(2) by (metis of_int_abs of_int_less_numeral_power_cancel_iff)
  then have "\<bar>x\<bar> < 2 ^ 53 * 2 ^ k"
    unfolding ax by (intro mult_strict_right_mono) simp_all
  also have "\<dots> = 2 powr (of_int (53 + int k))"
    by (simp add: powr_add powr_realpow)
  finally have "log 2 \<bar>x\<bar> < of_int (53 + int k)"
    using pos by (simp only: log_less_iff [of 2 "\<bar>x\<bar>"] one_less_numeral_iff semiring_norm)
  then have hi: "\<lfloor>log 2 \<bar>x\<bar>\<rfloor> < 53 + int k"
    by (simp only: floor_less_iff)
  have b: "binade x = \<lfloor>log 2 \<bar>x\<bar>\<rfloor>"
    using lo pos by (simp add: binade_def)
  define j where "j = nat (52 + int k - binade x)"
  have j: "binade x = 52 + int k - int j"
    using hi by (simp add: j_def b)
  have "ulp x = 2 powr (of_nat k - of_nat j)"
    unfolding ulp_def j by simp
  then have u: "ulp x = 2 ^ k / 2 ^ j"
    by (simp only: powr_diff powr_realpow zero_less_numeral)
  have "x / ulp x = x / (2 ^ k / 2 ^ j)"
    by (simp only: u)
  also have "\<dots> = of_int m * 2 ^ k / (2 ^ k / 2 ^ j)"
    by (simp only: assms(1))
  also have "\<dots> = of_int (m * 2 ^ j)"
    by simp
  finally have "nearest x = of_int (m * 2 ^ j) * ulp x"
    unfolding nearest_def by (simp only: roundTiesEven_int)
  also have "\<dots> = of_int (m * 2 ^ j) * (2 ^ k / 2 ^ j)"
    by (simp only: u)
  also have "\<dots> = of_int m * 2 ^ k"
    by simp
  also have "\<dots> = x"
    by (simp only: assms(1))
  finally show ?thesis .
qed

lemma fl_exact_up:
  assumes "x = of_int m * 2 ^ k" "\<bar>m\<bar> < 2 ^ 53" "k \<le> 900"
  shows "fl x = Num x"
proof -
  have "\<bar>of_int m :: real\<bar> < 2 ^ 53"
    using assms(2) by (metis of_int_abs of_int_less_numeral_power_cancel_iff)
  then have "\<bar>x\<bar> \<le> 2 ^ 53 * 2 ^ k"
    unfolding assms(1) abs_mult by (intro mult_mono) simp_all
  also have "\<dots> \<le> 2 ^ 53 * 2 ^ 900"
    using assms(3) by (intro mult_left_mono power_increasing) simp_all
  also have "\<dots> \<le> (2::real) ^ 1000" by simp
  finally have "\<bar>x\<bar> \<le> 2 ^ 1000" .
  then show ?thesis
    by (simp only: fl_finite nearest_exact_up [OF assms(1,2)])
qed

subsection \<open>The error of the projection parameter\<close>

text \<open>
  Powers of two as numerals, for linear arithmetic.
\<close>

lemma pows:
  "(2::real) ^ 40 = 1099511627776"
  "(2::real) ^ 44 = 17592186044416"
  "(2::real) ^ 45 = 35184372088832"
  "(2::real) ^ 52 = 4503599627370496"
  "(2::real) ^ 53 = 9007199254740992"
  "(2::real) ^ 60 = 1152921504606846976"
  by simp_all

lemma prod_err:
  fixes x y X Y :: real
  assumes "\<bar>x - X\<bar> \<le> ex" "\<bar>y - Y\<bar> \<le> ey" "\<bar>X\<bar> \<le> bX" "\<bar>y\<bar> \<le> bv"
  shows "\<bar>x * y - X * Y\<bar> \<le> ex * bv + bX * ey"
proof -
  have "x * y - X * Y = (x - X) * y + X * (y - Y)"
    by (simp add: algebra_simps)
  then have "\<bar>x * y - X * Y\<bar> \<le> \<bar>(x - X) * y\<bar> + \<bar>X * (y - Y)\<bar>"
    by (simp only: abs_triangle_ineq)
  also have "\<dots> = \<bar>x - X\<bar> * \<bar>y\<bar> + \<bar>X\<bar> * \<bar>y - Y\<bar>"
    by (simp only: abs_mult)
  also have "\<dots> \<le> ex * bv + bX * ey"
    using assms by (intro add_mono mult_mono) (auto intro: order_trans [OF abs_ge_zero])
  finally show ?thesis .
qed

lemma square_le:
  fixes x G :: real
  assumes "\<bar>x\<bar> \<le> G"
  shows "x * x \<le> G * G"
proof -
  have "x * x = \<bar>x\<bar> * \<bar>x\<bar>" by simp
  also have "\<dots> \<le> G * G" using assms by (intro mult_mono) auto
  finally show ?thesis .
qed

lemma abs_prod_le:
  fixes x y :: real
  assumes "\<bar>x\<bar> \<le> a" "\<bar>y\<bar> \<le> b"
  shows "\<bar>x * y\<bar> \<le> a * b"
  unfolding abs_mult using assms by (intro mult_mono) auto

lemma scaled_le:
  fixes l x :: real
  assumes "0 \<le> l" "l \<le> 1"
  shows "\<bar>l * x\<bar> \<le> \<bar>x\<bar>"
  unfolding abs_mult using assms by (simp add: mult_left_le_one_le)

text \<open>
  \<open>X\<close> and \<open>Y\<close> are the exact differences of the end points and \<open>l\<close> is the position of
  the point on the chord. When the chord is not tiny, the quotient \<open>N / D\<close> that the
  source computes for \<open>t\<close> is within \<open>72 / 2^52\<close> of \<open>l\<close>.
\<close>

lemma quotient_accuracy:
  fixes X Y l G :: real
  assumes bx: "\<bar>X\<bar> \<le> G" and bY: "\<bar>Y\<bar> \<le> G" and att: "G \<le> \<bar>X\<bar> \<or> G \<le> \<bar>Y\<bar>"
    and low: "1 / 2 ^ 60 \<le> G"
    and l: "0 \<le> l" "l \<le> 1"
  defines "dx \<equiv> nearest X" and "dy \<equiv> nearest Y"
    and "a \<equiv> nearest (l * X)" and "b \<equiv> nearest (l * Y)"
  defines "N \<equiv> nearest (nearest (a * dx) + nearest (b * dy))"
    and "D \<equiv> nearest (nearest (dx * dx) + nearest (dy * dy))"
  shows "0 < D" and "\<bar>N / D - l\<bar> \<le> 72 / 2 ^ 52"
proof -
  define W where "W = G * G"
  have Gpos: "0 < G" using low by (rule less_le_trans [rotated]) simp
  have "(1 / 2 ^ 60) * (1 / 2 ^ 60) \<le> G * G"
    using low by (intro mult_mono) simp_all
  then have Wlow: "1 / 2 ^ 120 \<le> W" by (simp add: W_def)
  have Wpos: "0 < W" using Wlow by (rule less_le_trans [rotated]) simp
  have G1000: "1 / 2 ^ 1000 \<le> G" using low by (rule order_trans [rotated]) simp
  have W1000: "1 / 2 ^ 1000 \<le> 4 * W" using Wlow Wpos by simp
  have XX: "X * X \<le> W" unfolding W_def using bx by (rule square_le)
  have YY: "Y * Y \<le> W" unfolding W_def using bY by (rule square_le)
  have XX0: "0 \<le> X * X" by simp
  have YY0: "0 \<le> Y * Y" by simp
  have S: "W \<le> X * X + Y * Y"
  proof -
    have sq: "G \<le> \<bar>Z\<bar> \<Longrightarrow> W \<le> Z * Z" for Z
    proof -
      assume "G \<le> \<bar>Z\<bar>"
      then have "G * G \<le> \<bar>Z\<bar> * \<bar>Z\<bar>" using Gpos by (intro mult_mono) simp_all
      then show "W \<le> Z * Z" by (simp add: W_def)
    qed
    from att show ?thesis
    proof
      assume "G \<le> \<bar>X\<bar>"
      from sq [OF this] YY0 show ?thesis unfolding pows by linarith
    next
      assume "G \<le> \<bar>Y\<bar>"
      from sq [OF this] XX0 show ?thesis unfolding pows by linarith
    qed
  qed
  have lX: "\<bar>l * X\<bar> \<le> G" using scaled_le [OF l, of X] bx unfolding pows by linarith
  have lY: "\<bar>l * Y\<bar> \<le> G" using scaled_le [OF l, of Y] bY unfolding pows by linarith
  have edx: "\<bar>dx - X\<bar> \<le> G / 2 ^ 52" unfolding dx_def by (rule nearest_close [OF bx G1000])
  have edy: "\<bar>dy - Y\<bar> \<le> G / 2 ^ 52" unfolding dy_def by (rule nearest_close [OF bY G1000])
  have ea: "\<bar>a - l * X\<bar> \<le> G / 2 ^ 52" unfolding a_def by (rule nearest_close [OF lX G1000])
  have eb: "\<bar>b - l * Y\<bar> \<le> G / 2 ^ 52" unfolding b_def by (rule nearest_close [OF lY G1000])
  have bdx: "\<bar>dx\<bar> \<le> 2 * G" using edx bx Gpos unfolding pows by linarith
  have bdy: "\<bar>dy\<bar> \<le> 2 * G" using edy bY Gpos unfolding pows by linarith
  have ba: "\<bar>a\<bar> \<le> 2 * G" using ea lX Gpos unfolding pows by linarith
  have bb: "\<bar>b\<bar> \<le> 2 * G" using eb lY Gpos unfolding pows by linarith
  have c3: "G / 2 ^ 52 * (2 * G) + G * (G / 2 ^ 52) = 3 * W / 2 ^ 52"
    by (simp add: W_def)
  have c4: "2 * G * (2 * G) = 4 * W"
    by (simp add: W_def)
  have pxx: "\<bar>dx * dx - X * X\<bar> \<le> 3 * W / 2 ^ 52"
    using prod_err [OF edx edx bx bdx] unfolding c3 .
  have pyy: "\<bar>dy * dy - Y * Y\<bar> \<le> 3 * W / 2 ^ 52"
    using prod_err [OF edy edy bY bdy] unfolding c3 .
  have pax: "\<bar>a * dx - l * X * X\<bar> \<le> 3 * W / 2 ^ 52"
    using prod_err [OF ea edx lX bdx] unfolding c3 .
  have pby: "\<bar>b * dy - l * Y * Y\<bar> \<le> 3 * W / 2 ^ 52"
    using prod_err [OF eb edy lY bdy] unfolding c3 .
  have bxx: "\<bar>dx * dx\<bar> \<le> 4 * W" using abs_prod_le [OF bdx bdx] unfolding c4 .
  have byy: "\<bar>dy * dy\<bar> \<le> 4 * W" using abs_prod_le [OF bdy bdy] unfolding c4 .
  have bax: "\<bar>a * dx\<bar> \<le> 4 * W" using abs_prod_le [OF ba bdx] unfolding c4 .
  have bby: "\<bar>b * dy\<bar> \<le> 4 * W" using abs_prod_le [OF bb bdy] unfolding c4 .
  define rx where "rx = nearest (dx * dx)"
  define ry where "ry = nearest (dy * dy)"
  define qx where "qx = nearest (a * dx)"
  define qy where "qy = nearest (b * dy)"
  have erx: "\<bar>rx - dx * dx\<bar> \<le> 4 * W / 2 ^ 52" unfolding rx_def by (rule nearest_close [OF bxx W1000])
  have ery: "\<bar>ry - dy * dy\<bar> \<le> 4 * W / 2 ^ 52" unfolding ry_def by (rule nearest_close [OF byy W1000])
  have eqx: "\<bar>qx - a * dx\<bar> \<le> 4 * W / 2 ^ 52" unfolding qx_def by (rule nearest_close [OF bax W1000])
  have eqy: "\<bar>qy - b * dy\<bar> \<le> 4 * W / 2 ^ 52" unfolding qy_def by (rule nearest_close [OF bby W1000])
  have lXX0: "0 \<le> l * X * X" using l(1) by (simp add: mult.assoc)
  have lYY0: "0 \<le> l * Y * Y" using l(1) by (simp add: mult.assoc)
  have lXX: "l * X * X \<le> X * X"
    using mult_left_le_one_le [OF XX0 l] by (simp add: mult.assoc)
  have lYY: "l * Y * Y \<le> Y * Y"
    using mult_left_le_one_le [OF YY0 l] by (simp add: mult.assoc)
  have rsum: "\<bar>rx + ry - (X * X + Y * Y)\<bar> \<le> 14 * W / 2 ^ 52"
    using erx ery pxx pyy unfolding pows by linarith
  have qsum: "\<bar>qx + qy - (l * X * X + l * Y * Y)\<bar> \<le> 14 * W / 2 ^ 52"
    using eqx eqy pax pby unfolding pows by linarith
  have brsum: "\<bar>rx + ry\<bar> \<le> 4 * W"
    using rsum XX YY XX0 YY0 Wpos unfolding pows by linarith
  have bqsum: "\<bar>qx + qy\<bar> \<le> 4 * W"
    using qsum XX YY lXX lYY lXX0 lYY0 Wpos unfolding pows by linarith
  have eD: "\<bar>D - (rx + ry)\<bar> \<le> 4 * W / 2 ^ 52"
    unfolding D_def rx_def [symmetric] ry_def [symmetric] by (rule nearest_close [OF brsum W1000])
  have eN: "\<bar>N - (qx + qy)\<bar> \<le> 4 * W / 2 ^ 52"
    unfolding N_def qx_def [symmetric] qy_def [symmetric] by (rule nearest_close [OF bqsum W1000])
  have Dacc: "\<bar>(X * X + Y * Y) - D\<bar> \<le> 18 * W / 2 ^ 52"
    using eD rsum unfolding pows by linarith
  have Nacc: "\<bar>N - (l * X * X + l * Y * Y)\<bar> \<le> 18 * W / 2 ^ 52"
    using eN qsum unfolding pows by linarith
  have Dlow: "W / 2 \<le> D"
    using Dacc S Wpos unfolding pows by linarith
  then show Dpos: "0 < D" using Wpos unfolding pows by linarith
  have "N - l * D = (N - (l * X * X + l * Y * Y)) + l * ((X * X + Y * Y) - D)"
    by (simp add: algebra_simps)
  moreover have "\<bar>l * ((X * X + Y * Y) - D)\<bar> \<le> \<bar>(X * X + Y * Y) - D\<bar>"
    by (rule scaled_le [OF l])
  ultimately have "\<bar>N - l * D\<bar> \<le> 36 * W / 2 ^ 52"
    using Nacc Dacc unfolding pows by linarith
  then have le: "\<bar>N - l * D\<bar> \<le> 72 / 2 ^ 52 * D"
    using Dlow unfolding pows by linarith
  have "N / D - l = (N - l * D) / D"
    using Dpos by (simp add: field_simps)
  then have "\<bar>N / D - l\<bar> = \<bar>N - l * D\<bar> / D"
    using Dpos by (simp add: abs_divide)
  also have "\<dots> \<le> 72 / 2 ^ 52"
    using le Dpos by (simp only: pos_divide_le_eq)
  finally show "\<bar>N / D - l\<bar> \<le> 72 / 2 ^ 52" .
qed

lemma fsub_num: "\<bar>x - y\<bar> \<le> 2 ^ 1000 \<Longrightarrow> fsub (Num x) (Num y) = Num (nearest (x - y))"
  by (simp add: fsub_def fl_finite)

lemma fadd_num: "\<bar>x + y\<bar> \<le> 2 ^ 1000 \<Longrightarrow> fadd (Num x) (Num y) = Num (nearest (x + y))"
  by (simp add: fl_finite)

lemma fmul_num: "\<bar>x * y\<bar> \<le> 2 ^ 1000 \<Longrightarrow> fmul (Num x) (Num y) = Num (nearest (x * y))"
  by (simp add: fl_finite)

lemma fless_mono: "\<not> fless (Num b) d \<Longrightarrow> b \<le> c \<Longrightarrow> \<not> fless (Num c) d"
  by (cases d) auto

lemma quotient_rounded:
  fixes X Y l G :: real
  assumes bX: "\<bar>X\<bar> \<le> G" and bY: "\<bar>Y\<bar> \<le> G" and att: "G \<le> \<bar>X\<bar> \<or> G \<le> \<bar>Y\<bar>"
    and low: "1 / 2 ^ 60 \<le> G"
    and l: "0 \<le> l" "l \<le> 1"
  defines "dx \<equiv> nearest X" and "dy \<equiv> nearest Y"
    and "a \<equiv> nearest (l * X)" and "b \<equiv> nearest (l * Y)"
  defines "N \<equiv> nearest (nearest (a * dx) + nearest (b * dy))"
    and "D \<equiv> nearest (nearest (dx * dx) + nearest (dy * dy))"
  shows "\<bar>N / D\<bar> \<le> 2" and "\<bar>nearest (N / D) - l\<bar> \<le> 74 / 2 ^ 52"
proof -
  have q: "\<bar>N / D - l\<bar> \<le> 72 / 2 ^ 52"
    unfolding N_def D_def a_def b_def dx_def dy_def
    by (rule quotient_accuracy(2) [OF bX bY att low l])
  then show b: "\<bar>N / D\<bar> \<le> 2"
    using l unfolding pows by linarith
  have "\<bar>nearest (N / D) - N / D\<bar> \<le> 2 / 2 ^ 52"
    using b by (rule nearest_close) simp
  then show "\<bar>nearest (N / D) - l\<bar> \<le> 74 / 2 ^ 52"
    using q unfolding pows by linarith
qed

lemma final_stage:
  fixes px py nx ny M :: real
  assumes ex: "\<bar>px - nx\<bar> \<le> M / 2 ^ 44" and ey: "\<bar>py - ny\<bar> \<le> M / 2 ^ 44"
    and M: "1 \<le> M" "M \<le> 2 ^ 400"
  shows "\<exists>d. fsqrt (fadd (fmul (fsub (Num px) (Num nx)) (fsub (Num px) (Num nx)))
                         (fmul (fsub (Num py) (Num ny)) (fsub (Num py) (Num ny)))) = Num d
             \<and> d \<le> M / 2 ^ 40"
proof -
  define B where "B = M / 2 ^ 44"
  define C where "C = 4 * (B * B)"
  have Blow: "1 / 2 ^ 44 \<le> B" using M(1) by (simp add: B_def divide_right_mono)
  have Bpos: "0 < B" using M(1) by (simp add: B_def)
  have Bhigh: "B \<le> 2 ^ 356"
  proof -
    have "B \<le> 2 ^ 400 / 2 ^ 44" unfolding B_def using M(2) by (rule divide_right_mono) simp
    then show ?thesis by simp
  qed
  have B1000: "1 / 2 ^ 1000 \<le> B" using Blow by (rule order_trans [rotated]) simp
  have Bmax: "B \<le> 2 ^ 1000" using Bhigh by (rule order_trans) simp
  have "(1 / 2 ^ 44) * (1 / 2 ^ 44) \<le> B * B"
    using Blow by (intro mult_mono) simp_all
  then have Clow: "1 / 2 ^ 86 \<le> C" by (simp add: C_def)
  have Cpos: "0 < C" using Bpos by (simp add: C_def)
  have "B * B \<le> 2 ^ 356 * 2 ^ 356"
    using Bhigh Bpos by (intro mult_mono) simp_all
  then have Chigh: "C \<le> 2 ^ 714" by (simp add: C_def)
  have C1000: "1 / 2 ^ 1000 \<le> C" using Clow by (rule order_trans [rotated]) simp
  have C1000': "1 / 2 ^ 1000 \<le> 4 * C" using C1000 Cpos by linarith
  have Cmax: "4 * C \<le> 2 ^ 1000"
  proof -
    have "4 * C \<le> 4 * 2 ^ 714" using Chigh by simp
    also have "\<dots> \<le> (2::real) ^ 1000" by simp
    finally show ?thesis .
  qed
  have Cmax1: "C \<le> 2 ^ 1000" using Cmax Cpos by linarith
  have c4: "2 * B * (2 * B) = C" by (simp add: C_def)
  have stage: "\<exists>v. fmul (fsub (Num p) (Num n)) (fsub (Num p) (Num n)) = Num v \<and> 0 \<le> v \<and> v \<le> 2 * C"
    if e: "\<bar>p - n\<bar> \<le> B" for p n :: real
  proof -
    define u where "u = nearest (p - n)"
    have s: "fsub (Num p) (Num n) = Num u"
      unfolding u_def using e Bmax by (intro fsub_num) linarith
    have eu: "\<bar>u - (p - n)\<bar> \<le> B / 2 ^ 52"
      unfolding u_def by (rule nearest_close [OF e B1000])
    have bu: "\<bar>u\<bar> \<le> 2 * B" using eu e Bpos unfolding pows by linarith
    have buu: "\<bar>u * u\<bar> \<le> C" using abs_prod_le [OF bu bu] unfolding c4 .
    have m: "fmul (Num u) (Num u) = Num (nearest (u * u))"
      using buu Cmax1 by (intro fmul_num) linarith
    have "\<bar>nearest (u * u) - u * u\<bar> \<le> C / 2 ^ 52"
      by (rule nearest_close [OF buu C1000])
    then have "nearest (u * u) \<le> 2 * C"
      using buu Cpos unfolding pows by linarith
    moreover have "0 \<le> nearest (u * u)"
      by (rule nearest_nonneg) simp
    ultimately show ?thesis unfolding s m by blast
  qed
  from stage [OF ex [folded B_def]] obtain vx
    where vx: "fmul (fsub (Num px) (Num nx)) (fsub (Num px) (Num nx)) = Num vx" "0 \<le> vx" "vx \<le> 2 * C"
    by blast
  from stage [OF ey [folded B_def]] obtain vy
    where vy: "fmul (fsub (Num py) (Num ny)) (fsub (Num py) (Num ny)) = Num vy" "0 \<le> vy" "vy \<le> 2 * C"
    by blast
  define s where "s = nearest (vx + vy)"
  have bsum: "\<bar>vx + vy\<bar> \<le> 4 * C" using vx(2,3) vy(2,3) by linarith
  have a: "fadd (Num vx) (Num vy) = Num s"
    unfolding s_def using bsum Cmax by (intro fadd_num) linarith
  have "\<bar>s - (vx + vy)\<bar> \<le> 4 * C / 2 ^ 52"
    unfolding s_def by (rule nearest_close [OF bsum C1000'])
  then have s5: "s \<le> 5 * C" using bsum Cpos unfolding pows by linarith
  have s0: "0 \<le> s" unfolding s_def using vx(2) vy(2) by (intro nearest_nonneg) linarith
  have "(5 * B)\<^sup>2 = 25 * (B * B)" by (simp add: power2_eq_square)
  moreover have "0 \<le> B * B" by simp
  ultimately have "s \<le> (5 * B)\<^sup>2"
    using s5 unfolding C_def by linarith
  then have r5: "sqrt s \<le> 5 * B"
    using Bpos by (intro real_le_lsqrt) simp_all
  have r0: "0 \<le> sqrt s" using s0 by simp
  have br: "\<bar>sqrt s\<bar> \<le> 5 * B" using r5 r0 by linarith
  have f: "fsqrt (Num s) = Num (nearest (sqrt s))"
    using s0 br Bmax Bhigh by (simp add: fl_finite)
  have "\<bar>nearest (sqrt s) - sqrt s\<bar> \<le> 5 * B / 2 ^ 52"
    using br by (rule nearest_close) (use B1000 Bpos in linarith)
  then have "nearest (sqrt s) \<le> 16 * B"
    using br Bpos unfolding pows by linarith
  then have "nearest (sqrt s) \<le> M / 2 ^ 40"
    by (simp add: B_def)
  then show ?thesis unfolding vx(1) vy(1) a f by blast
qed

lemma coord_else:
  fixes s X l r M :: real
  assumes M: "1 \<le> M" "M \<le> 2 ^ 400" and bs: "\<bar>s\<bar> \<le> M" and bX: "\<bar>X\<bar> \<le> 2 * M"
    and r: "0 \<le> r" "r \<le> 1"
  shows "fadd (Num s) (fmul (Num r) (Num (nearest X))) = Num (nearest (s + nearest (r * nearest X)))"
    and "\<bar>r - l\<bar> * \<bar>X\<bar> \<le> 148 * M / 2 ^ 52 \<Longrightarrow>
         \<bar>(s + l * X) - nearest (s + nearest (r * nearest X))\<bar> \<le> M / 2 ^ 44"
proof -
  define dx where "dx = nearest X"
  define w where "w = nearest (r * dx)"
  have M1000: "5 * M \<le> 2 ^ 1000"
  proof -
    have "5 * M \<le> 5 * 2 ^ 400" using M(2) by simp
    also have "\<dots> \<le> (2::real) ^ 1000" by simp
    finally show ?thesis .
  qed
  have low2: "1 / 2 ^ 1000 \<le> 2 * M"
    using M(1) by (intro order_trans [of "1 / 2 ^ 1000" 1 "2 * M"]) simp_all
  have low3: "1 / 2 ^ 1000 \<le> 3 * M"
    using M(1) by (intro order_trans [of "1 / 2 ^ 1000" 1 "3 * M"]) simp_all
  have low5: "1 / 2 ^ 1000 \<le> 5 * M"
    using M(1) by (intro order_trans [of "1 / 2 ^ 1000" 1 "5 * M"]) simp_all
  have edx: "\<bar>dx - X\<bar> \<le> 2 * M / 2 ^ 52"
    unfolding dx_def by (rule nearest_close [OF bX low2])
  have bdx: "\<bar>dx\<bar> \<le> 3 * M" using edx bX M(1) unfolding pows by linarith
  have "\<bar>r * dx\<bar> \<le> 1 * (3 * M)"
    using r bdx by (intro abs_prod_le) simp_all
  then have brd: "\<bar>r * dx\<bar> \<le> 3 * M" by simp
  have ew: "\<bar>w - r * dx\<bar> \<le> 3 * M / 2 ^ 52"
    unfolding w_def by (rule nearest_close [OF brd low3])
  have bw: "\<bar>w\<bar> \<le> 4 * M" using ew brd M(1) unfolding pows by linarith
  have m: "fmul (Num r) (Num dx) = Num w"
    unfolding w_def using brd M1000 M(1) by (intro fmul_num) linarith
  have bsw: "\<bar>s + w\<bar> \<le> 5 * M" using bs bw by linarith
  have a: "fadd (Num s) (Num w) = Num (nearest (s + w))"
    using bsw M1000 by (intro fadd_num) linarith
  show "fadd (Num s) (fmul (Num r) (Num (nearest X))) = Num (nearest (s + nearest (r * nearest X)))"
    using m a unfolding w_def dx_def by simp
  assume rl: "\<bar>r - l\<bar> * \<bar>X\<bar> \<le> 148 * M / 2 ^ 52"
  have e: "\<bar>nearest (s + w) - (s + w)\<bar> \<le> 5 * M / 2 ^ 52"
    by (rule nearest_close [OF bsw low5])
  have "r * dx - l * X = r * (dx - X) + (r - l) * X"
    by (simp add: algebra_simps)
  moreover have "\<bar>r * (dx - X)\<bar> \<le> \<bar>dx - X\<bar>"
    by (rule scaled_le [OF r])
  moreover have "\<bar>(r - l) * X\<bar> \<le> 148 * M / 2 ^ 52"
    using rl by (simp add: abs_mult)
  ultimately have "\<bar>r * dx - l * X\<bar> \<le> 150 * M / 2 ^ 52"
    using edx unfolding pows by linarith
  then have "\<bar>(s + l * X) - nearest (s + w)\<bar> \<le> M / 2 ^ 44"
    using e ew M(1) unfolding pows by linarith
  then show "\<bar>(s + l * X) - nearest (s + nearest (r * nearest X))\<bar> \<le> M / 2 ^ 44"
    unfolding w_def dx_def .
qed

subsection \<open>The distance of a point on the chord\<close>

text \<open>
  For end points with coordinates of magnitude at most \<open>M\<close> and a point at position
  \<open>l\<close> on the chord between them, the distance that the source computes is \<open>NaN\<close> or at
  most \<open>M / 2^40\<close>: it never compares as greater than \<open>M / 2^40\<close>.
\<close>

lemma distance_onChord:
  fixes sx sy ex ey px py M l :: real
  assumes M: "1 \<le> M" "M \<le> 2 ^ 400"
    and bnd: "\<bar>sx\<bar> \<le> M" "\<bar>sy\<bar> \<le> M" "\<bar>ex\<bar> \<le> M" "\<bar>ey\<bar> \<le> M"
    and l: "0 \<le> l" "l \<le> 1"
    and cx: "px = sx + l * (ex - sx)" and cy: "py = sy + l * (ey - sy)"
  shows "\<not> fless (Num (M / 2 ^ 40))
           (getPerpendicularDistanceFloat (Num px, Num py) (Num sx, Num sy) (Num ex, Num ey))"
proof -
  define X where "X = ex - sx"
  define Y where "Y = ey - sy"
  define G where "G = max \<bar>X\<bar> \<bar>Y\<bar>"
  define dx where "dx = nearest X"
  define dy where "dy = nearest Y"
  define a where "a = nearest (l * X)"
  define b where "b = nearest (l * Y)"
  define N where "N = nearest (nearest (a * dx) + nearest (b * dy))"
  define D where "D = nearest (nearest (dx * dx) + nearest (dy * dy))"
  define t where "t = fdiv (Num N) (Num D)"
  define Q where "Q = M * M"
  have bX: "\<bar>X\<bar> \<le> 2 * M" unfolding X_def using bnd by linarith
  have bY: "\<bar>Y\<bar> \<le> 2 * M" unfolding Y_def using bnd by linarith
  have gX: "\<bar>X\<bar> \<le> G" by (simp add: G_def)
  have gY: "\<bar>Y\<bar> \<le> G" by (simp add: G_def)
  have att: "G \<le> \<bar>X\<bar> \<or> G \<le> \<bar>Y\<bar>" by (auto simp: G_def max_def)
  have M1000: "3 * M \<le> 2 ^ 1000"
  proof -
    have "3 * M \<le> 3 * 2 ^ 400" using M(2) by simp
    also have "\<dots> \<le> (2::real) ^ 1000" by simp
    finally show ?thesis .
  qed
  have "1 * 1 \<le> M * M" using M(1) by (intro mult_mono) simp_all
  then have Q1: "1 \<le> Q" by (simp add: Q_def)
  have "M * M \<le> 2 ^ 400 * 2 ^ 400" using M by (intro mult_mono) simp_all
  then have "Q \<le> 2 ^ 800" by (simp add: Q_def)
  then have "20 * Q \<le> 20 * 2 ^ 800" by simp
  also have "\<dots> \<le> (2::real) ^ 1000" by simp
  finally have Q1000: "20 * Q \<le> 2 ^ 1000" .
  have lowQ: "1 / 2 ^ 1000 \<le> 9 * Q"
    using Q1 by (intro order_trans [of "1 / 2 ^ 1000" 1 "9 * Q"]) simp_all
  have lowQ2: "1 / 2 ^ 1000 \<le> 20 * Q"
    using Q1 by (intro order_trans [of "1 / 2 ^ 1000" 1 "20 * Q"]) simp_all
  have low2: "1 / 2 ^ 1000 \<le> 2 * M"
    using M(1) by (intro order_trans [of "1 / 2 ^ 1000" 1 "2 * M"]) simp_all
  have plX: "px - sx = l * X" unfolding X_def using cx by simp
  have plY: "py - sy = l * Y" unfolding Y_def using cy by simp
  have blX: "\<bar>l * X\<bar> \<le> 2 * M" using scaled_le [OF l, of X] bX by linarith
  have blY: "\<bar>l * Y\<bar> \<le> 2 * M" using scaled_le [OF l, of Y] bY by linarith
  have sdx: "fsub (Num ex) (Num sx) = Num dx"
    unfolding dx_def X_def using bX [unfolded X_def] M1000 M(1) by (intro fsub_num) linarith
  have sdy: "fsub (Num ey) (Num sy) = Num dy"
    unfolding dy_def Y_def using bY [unfolded Y_def] M1000 M(1) by (intro fsub_num) linarith
  have sa: "fsub (Num px) (Num sx) = Num a"
    unfolding a_def plX [symmetric] using blX [folded plX] M1000 M(1) by (intro fsub_num) linarith
  have sb: "fsub (Num py) (Num sy) = Num b"
    unfolding b_def plY [symmetric] using blY [folded plY] M1000 M(1) by (intro fsub_num) linarith
  have near3: "\<bar>nearest Z\<bar> \<le> 3 * M" if "\<bar>Z\<bar> \<le> 2 * M" for Z
    using nearest_close [OF that low2] that M(1) unfolding pows by linarith
  have bdx: "\<bar>dx\<bar> \<le> 3 * M" unfolding dx_def by (rule near3 [OF bX])
  have bdy: "\<bar>dy\<bar> \<le> 3 * M" unfolding dy_def by (rule near3 [OF bY])
  have ba: "\<bar>a\<bar> \<le> 3 * M" unfolding a_def by (rule near3 [OF blX])
  have bb: "\<bar>b\<bar> \<le> 3 * M" unfolding b_def by (rule near3 [OF blY])
  have c9: "3 * M * (3 * M) = 9 * Q" by (simp add: Q_def)
  have stage: "fmul (Num u) (Num v) = Num (nearest (u * v)) \<and> \<bar>nearest (u * v)\<bar> \<le> 10 * Q"
    if u: "\<bar>u\<bar> \<le> 3 * M" and v: "\<bar>v\<bar> \<le> 3 * M" for u v
  proof -
    have buv: "\<bar>u * v\<bar> \<le> 9 * Q" using abs_prod_le [OF u v] unfolding c9 .
    have "fmul (Num u) (Num v) = Num (nearest (u * v))"
      using buv Q1000 Q1 by (intro fmul_num) linarith
    moreover have "\<bar>nearest (u * v)\<bar> \<le> 10 * Q"
      using nearest_close [OF buv lowQ] buv Q1 unfolding pows by linarith
    ultimately show ?thesis by simp
  qed
  have sums: "fadd (fmul (Num u) (Num v)) (fmul (Num u') (Num v'))
                = Num (nearest (nearest (u * v) + nearest (u' * v')))"
    if "\<bar>u\<bar> \<le> 3 * M" "\<bar>v\<bar> \<le> 3 * M" "\<bar>u'\<bar> \<le> 3 * M" "\<bar>v'\<bar> \<le> 3 * M" for u v u' v'
  proof -
    from stage [OF that(1,2)]
    have s1: "fmul (Num u) (Num v) = Num (nearest (u * v))" and b1: "\<bar>nearest (u * v)\<bar> \<le> 10 * Q"
      by simp_all
    from stage [OF that(3,4)]
    have s2: "fmul (Num u') (Num v') = Num (nearest (u' * v'))" and b2: "\<bar>nearest (u' * v')\<bar> \<le> 10 * Q"
      by simp_all
    have "\<bar>nearest (u * v) + nearest (u' * v')\<bar> \<le> 2 ^ 1000"
      using b1 b2 Q1000 by linarith
    then show ?thesis
      unfolding s1 s2 by (rule fadd_num)
  qed
  have num: "fadd (fmul (Num a) (Num dx)) (fmul (Num b) (Num dy)) = Num N"
    unfolding N_def by (rule sums [OF ba bdx bb bdy])
  have den: "fadd (fmul (Num dx) (Num dx)) (fmul (Num dy) (Num dy)) = Num D"
    unfolding D_def by (rule sums [OF bdx bdx bdy bdy])
  have same: "0 \<le> nearest (l * Z) * nearest Z" for Z
  proof (cases "0 \<le> Z")
    case True
    then have "0 \<le> l * Z" using l(1) by simp
    then have "0 \<le> nearest (l * Z)" by (rule nearest_nonneg)
    moreover have "0 \<le> nearest Z" using True by (rule nearest_nonneg)
    ultimately show ?thesis by (rule mult_nonneg_nonneg)
  next
    case False
    then have z: "Z \<le> 0" by simp
    then have "l * Z \<le> 0" using l(1) by (simp add: mult_nonneg_nonpos)
    then have "nearest (l * Z) \<le> 0" by (rule nearest_nonpos)
    moreover have "nearest Z \<le> 0" using z by (rule nearest_nonpos)
    ultimately show ?thesis by (rule mult_nonpos_nonpos)
  qed
  have N0: "0 \<le> N"
    unfolding N_def a_def b_def dx_def dy_def
    by (intro nearest_nonneg add_nonneg_nonneg same)
  have D0: "0 \<le> D"
    unfolding D_def by (intro nearest_nonneg add_nonneg_nonneg) simp_all
  have tcases: "t = NaN \<or> t = PosInf \<or> (\<exists>r. t = Num r \<and> 0 \<le> r)"
  proof (cases "D = 0")
    case True
    then show ?thesis using N0 by (auto simp: t_def infinity_def)
  next
    case False
    have "0 \<le> nearest (N / D)"
      using N0 D0 by (intro nearest_nonneg) simp
    moreover have "0 < maxDouble" by (simp add: maxDouble_def)
    ultimately show ?thesis using False by (auto simp: t_def fl_def Let_def)
  qed
  have big: "t = Num (nearest (N / D)) \<and> \<bar>nearest (N / D) - l\<bar> \<le> 74 / 2 ^ 52" if low: "1 / 2 ^ 60 \<le> G"
  proof -
    have "0 < D"
      unfolding D_def dx_def dy_def by (rule quotient_accuracy(1) [OF gX gY att low l])
    moreover have "\<bar>N / D\<bar> \<le> 2"
      unfolding N_def D_def a_def b_def dx_def dy_def
      by (rule quotient_rounded(1) [OF gX gY att low l])
    ultimately have "t = Num (nearest (N / D))"
      by (simp add: t_def fl_finite)
    moreover have "\<bar>nearest (N / D) - l\<bar> \<le> 74 / 2 ^ 52"
      unfolding N_def D_def a_def b_def dx_def dy_def
      by (rule quotient_rounded(2) [OF gX gY att low l])
    ultimately show ?thesis by simp
  qed
  have fin: "\<not> fless (Num (M / 2 ^ 40))
      (fsqrt (fadd (fmul (fsub (Num px) (Num nx)) (fsub (Num px) (Num nx)))
                   (fmul (fsub (Num py) (Num ny)) (fsub (Num py) (Num ny)))))"
    if "\<bar>px - nx\<bar> \<le> M / 2 ^ 44" "\<bar>py - ny\<bar> \<le> M / 2 ^ 44" for nx ny
    using final_stage [OF that M] by auto
  have tiny: "\<bar>Z\<bar> \<le> M / 2 ^ 52" if "\<bar>Z\<bar> \<le> G" "G < 1 / 2 ^ 60" for Z
    using that M(1) unfolding pows by linarith
  have endb: "\<bar>(l - 1) * Z\<bar> \<le> M / 2 ^ 44"
    if Z: "\<bar>Z\<bar> \<le> G" "\<bar>Z\<bar> \<le> 2 * M" and c: "1 / 2 ^ 60 \<le> G \<longrightarrow> 1 - l \<le> 74 / 2 ^ 52" for Z
  proof (cases "G < 1 / 2 ^ 60")
    case True
    have "\<bar>(1 - l) * Z\<bar> \<le> \<bar>Z\<bar>"
      using l by (intro scaled_le) simp_all
    moreover have "\<bar>(l - 1) * Z\<bar> = \<bar>(1 - l) * Z\<bar>"
      by (simp add: abs_mult abs_minus_commute)
    ultimately show ?thesis
      using tiny [OF Z(1) True] M(1) unfolding pows by linarith
  next
    case False
    with c have "1 - l \<le> 74 / 2 ^ 52" by simp
    then have "(1 - l) * \<bar>Z\<bar> \<le> 74 / 2 ^ 52 * (2 * M)"
      using Z(2) l by (intro mult_mono) simp_all
    moreover have "\<bar>(l - 1) * Z\<bar> = (1 - l) * \<bar>Z\<bar>"
      using l by (simp add: abs_mult)
    ultimately show ?thesis
      using M(1) unfolding pows by linarith
  qed
  have elseb: "\<bar>r - l\<bar> * \<bar>Z\<bar> \<le> 148 * M / 2 ^ 52"
    if Z: "\<bar>Z\<bar> \<le> G" "\<bar>Z\<bar> \<le> 2 * M" and r: "0 \<le> r" "r \<le> 1"
      and c: "1 / 2 ^ 60 \<le> G \<longrightarrow> \<bar>r - l\<bar> \<le> 74 / 2 ^ 52" for Z r
  proof (cases "G < 1 / 2 ^ 60")
    case True
    have "\<bar>r - l\<bar> * \<bar>Z\<bar> \<le> 1 * \<bar>Z\<bar>"
      using l r by (intro mult_right_mono) (simp_all add: abs_le_iff)
    then show ?thesis
      using tiny [OF Z(1) True] M(1) unfolding pows by linarith
  next
    case False
    with c have "\<bar>r - l\<bar> \<le> 74 / 2 ^ 52" by simp
    then have "\<bar>r - l\<bar> * \<bar>Z\<bar> \<le> 74 / 2 ^ 52 * (2 * M)"
      using Z(2) by (intro mult_mono) simp_all
    then show ?thesis by simp
  qed
  have pex: "px - ex = (l - 1) * X" unfolding X_def cx by (simp add: algebra_simps)
  have pey: "py - ey = (l - 1) * Y" unfolding Y_def cy by (simp add: algebra_simps)
  show ?thesis
  proof (cases "dx = 0 \<and> dy = 0")
    case True
    have zero: "\<bar>Z\<bar> \<le> M / 2 ^ 44" if "nearest Z = 0" for Z
    proof -
      define e :: real where "e = 1 / 2 ^ 1075"
      have e: "e \<le> 1 / 2 ^ 45" unfolding e_def by simp
      have "\<bar>Z\<bar> \<le> \<bar>Z\<bar> / 2 ^ 53 + e"
        using nearest_error [of Z] that by (simp add: e_def)
      then show ?thesis using e M(1) unfolding pows by linarith
    qed
    have "\<bar>l * X\<bar> \<le> M / 2 ^ 44"
      using scaled_le [OF l, of X] zero [of X] True by (simp add: dx_def)
    moreover have "\<bar>l * Y\<bar> \<le> M / 2 ^ 44"
      using scaled_le [OF l, of Y] zero [of Y] True by (simp add: dy_def)
    ultimately have "\<not> fless (Num (M / 2 ^ 40))
      (fsqrt (fadd (fmul (fsub (Num px) (Num sx)) (fsub (Num px) (Num sx)))
                   (fmul (fsub (Num py) (Num sy)) (fsub (Num py) (Num sy)))))"
      unfolding plX [symmetric] plY [symmetric] by (rule fin)
    then show ?thesis
      using True by (simp add: getPerpendicularDistanceFloat_def Let_def sdx sdy)
  next
    case False
    define nearestPoint where "nearestPoint =
      (if fless t (Num 0) then (Num sx, Num sy)
       else if fless (Num 1) t then (Num ex, Num ey)
       else (fadd (Num sx) (fmul t (Num dx)), fadd (Num sy) (fmul t (Num dy))))"
    have g: "getPerpendicularDistanceFloat (Num px, Num py) (Num sx, Num sy) (Num ex, Num ey) =
      fsqrt (fadd (fmul (fsub (Num px) (fst nearestPoint)) (fsub (Num px) (fst nearestPoint)))
                  (fmul (fsub (Num py) (snd nearestPoint)) (fsub (Num py) (snd nearestPoint))))"
      unfolding getPerpendicularDistanceFloat_def Let_def fst_conv snd_conv sdx sdy sa sb num den
        number.inject nearestPoint_def t_def
      by (simp only: False if_False)
    from tcases consider (nan) "t = NaN" | (inf) "t = PosInf" | (num) r where "t = Num r" "0 \<le> r"
      by blast
    then show ?thesis
    proof cases
      case nan
      then have "nearestPoint = (NaN, NaN)" by (simp add: nearestPoint_def)
      then show ?thesis unfolding g by (simp add: fsub_def)
    next
      case inf
      then have np: "nearestPoint = (Num ex, Num ey)" by (simp add: nearestPoint_def)
      have c: "1 / 2 ^ 60 \<le> G \<longrightarrow> 1 - l \<le> 74 / 2 ^ 52"
        using big inf by auto
      show ?thesis unfolding g np fst_conv snd_conv
        by (rule fin) (simp_all only: pex pey endb [OF gX bX c] endb [OF gY bY c])
    next
      case num
      show ?thesis
      proof (cases "1 < r")
        case True
        then have np: "nearestPoint = (Num ex, Num ey)"
          using num by (simp add: nearestPoint_def)
        have c: "1 / 2 ^ 60 \<le> G \<longrightarrow> 1 - l \<le> 74 / 2 ^ 52"
        proof
          assume "1 / 2 ^ 60 \<le> G"
          from big [OF this] num(1) have "\<bar>r - l\<bar> \<le> 74 / 2 ^ 52" by simp
          then show "1 - l \<le> 74 / 2 ^ 52" using True by linarith
        qed
        show ?thesis unfolding g np fst_conv snd_conv
          by (rule fin) (simp_all only: pex pey endb [OF gX bX c] endb [OF gY bY c])
      next
        case False
        then have r1: "r \<le> 1" by simp
        have c: "1 / 2 ^ 60 \<le> G \<longrightarrow> \<bar>r - l\<bar> \<le> 74 / 2 ^ 52"
          using big num(1) by auto
        have np: "nearestPoint =
            (Num (nearest (sx + nearest (r * nearest X))), Num (nearest (sy + nearest (r * nearest Y))))"
          unfolding nearestPoint_def num(1) dx_def dy_def
            coord_else(1) [OF M bnd(1) bX num(2) r1] coord_else(1) [OF M bnd(2) bY num(2) r1]
          using False num(2) by simp
        have ex': "\<bar>px - nearest (sx + nearest (r * nearest X))\<bar> \<le> M / 2 ^ 44"
          using coord_else(2) [OF M bnd(1) bX num(2) r1 elseb [OF gX bX num(2) r1 c]]
          unfolding cx X_def .
        have ey': "\<bar>py - nearest (sy + nearest (r * nearest Y))\<bar> \<le> M / 2 ^ 44"
          using coord_else(2) [OF M bnd(2) bY num(2) r1 elseb [OF gY bY num(2) r1 c]]
          unfolding cy Y_def .
        show ?thesis unfolding g np fst_conv snd_conv
          by (rule fin [OF ex' ey'])
      qed
    qed
  qed
qed

subsection \<open>Collinear input\<close>

lemma rdpFloat_short:
  "length points < 3 \<Longrightarrow> ramerDouglasPeuckerFloat points epsilon = Some points"
  by (subst ramerDouglasPeuckerFloat.simps) simp

lemma rdpFloat_collapse:
  "\<not> length points < 3 \<Longrightarrow> \<not> fless epsilon (fst (farthestFloat points)) \<Longrightarrow>
     ramerDouglasPeuckerFloat points epsilon = Some [points ! 0, points ! (length points - 1)]"
  by (subst ramerDouglasPeuckerFloat.simps) (simp add: Let_def)

lemma rdpFloat_split:
  "\<not> length points < 3 \<Longrightarrow> fless epsilon (fst (farthestFloat points)) \<Longrightarrow>
     ramerDouglasPeuckerFloat points epsilon =
       Option.bind (ramerDouglasPeuckerFloat (take (snd (farthestFloat points) + 1) points) epsilon) (\<lambda>recResults1.
       Option.bind (ramerDouglasPeuckerFloat (drop (snd (farthestFloat points)) points) epsilon) (\<lambda>recResults2.
         Some (take (length recResults1 - 1) recResults1 @ recResults2)))"
  by (subst ramerDouglasPeuckerFloat.simps) (simp add: Let_def)

lemma farthestFloat_foldl_small:
  "\<forall>i \<in> set is. \<not> fless epsilon
       (getPerpendicularDistanceFloat (points ! i) (points ! 0) (points ! (length points - 1)))
     \<Longrightarrow> \<not> fless epsilon (fst acc)
     \<Longrightarrow> \<not> fless epsilon (fst (foldl (farthestStepFloat points) acc is))"
  by (induction "is" arbitrary: acc) (simp_all add: farthestStepFloat_def Let_def)

lemma onChord_param:
  assumes "onChord a b p"
  shows "\<exists>l. 0 \<le> l \<and> l \<le> 1 \<and> fst p = fst a + l * (fst b - fst a)
            \<and> snd p = snd a + l * (snd b - snd a)"
proof -
  define dx where "dx = fst b - fst a"
  define dy where "dy = snd b - snd a"
  define ux where "ux = fst p - fst a"
  define uy where "uy = snd p - snd a"
  have cr: "ux * dy = uy * dx"
    using assms by (simp add: onChord_def cross_def ux_def uy_def dx_def dy_def)
  have bx: "(0 \<le> ux \<and> ux \<le> dx) \<or> (dx \<le> ux \<and> ux \<le> 0)"
    using assms by (auto simp: onChord_def ux_def dx_def min_def max_def split: if_splits)
  have by': "(0 \<le> uy \<and> uy \<le> dy) \<or> (dy \<le> uy \<and> uy \<le> 0)"
    using assms by (auto simp: onChord_def uy_def dy_def min_def max_def split: if_splits)
  have ratio: "0 \<le> u / d \<and> u / d \<le> 1"
    if "(0 \<le> u \<and> u \<le> d) \<or> (d \<le> u \<and> u \<le> 0)" "d \<noteq> 0" for u d :: real
    using that by (auto simp: divide_le_eq zero_le_divide_iff)
  have "\<exists>l. 0 \<le> l \<and> l \<le> 1 \<and> ux = l * dx \<and> uy = l * dy"
  proof (cases "dx = 0")
    case False
    have "uy = ux / dx * dy"
      using cr False by (simp add: field_simps)
    moreover have "ux = ux / dx * dx" using False by simp
    ultimately show ?thesis using ratio [OF bx False] by blast
  next
    case True
    then have ux0: "ux = 0" using bx by auto
    show ?thesis
    proof (cases "dy = 0")
      case False
      have "uy = uy / dy * dy" using False by simp
      moreover have "ux = uy / dy * dx" using True ux0 by simp
      ultimately show ?thesis using ratio [OF by' False] by blast
    next
      case dy0: True
      then have "uy = 0" using by' by auto
      then have "0 \<le> (0::real) \<and> (0::real) \<le> 1 \<and> ux = 0 * dx \<and> uy = 0 * dy"
        using ux0 by simp
      then show ?thesis by blast
    qed
  qed
  then obtain l where "0 \<le> l" "l \<le> 1" "ux = l * dx" "uy = l * dy" by blast
  then have "0 \<le> l \<and> l \<le> 1 \<and> fst p = fst a + l * (fst b - fst a)
            \<and> snd p = snd a + l * (snd b - snd a)"
    by (simp add: ux_def uy_def dx_def dy_def algebra_simps)
  then show ?thesis by blast
qed

lemma interior_nth:
  assumes "1 \<le> i" "i < length points - 1"
  shows "points ! i \<in> set (butlast (tl points))"
proof -
  have "butlast (tl points) ! (i - 1) = points ! i"
    using assms by (simp add: nth_butlast nth_tl)
  moreover have "i - 1 < length (butlast (tl points))"
    using assms by simp
  ultimately show ?thesis by (metis nth_mem)
qed

text \<open>
  C2 (amended): for at least three points whose interior points all lie on the closed
  segment from the first to the last point, with all coordinates of magnitude at most
  \<open>M\<close>, where \<open>1 \<le> M \<le> 2^400\<close>, and every \<open>epsilon\<close> of at least \<open>M / 2^40\<close>, the
  simplification in double precision returns exactly the first and the last point.
\<close>

theorem ramerDouglasPeuckerFloat_collinear:
  assumes "3 \<le> length points" and "1 \<le> M" and "M \<le> 2 ^ 400" and "M / 2 ^ 40 \<le> epsilon"
    and "\<forall>p \<in> set points. \<bar>fst p\<bar> \<le> M \<and> \<bar>snd p\<bar> \<le> M"
    and "\<forall>p \<in> set (butlast (tl points)). onChord (hd points) (last points) p"
  shows "ramerDouglasPeuckerFloat (map numPoint points) (Num epsilon)
           = Some [numPoint (hd points), numPoint (last points)]"
proof -
  define fpoints where "fpoints = map numPoint points"
  have ne: "points \<noteq> []" using assms(1) by auto
  have len: "length fpoints = length points" by (simp add: fpoints_def)
  have h: "fpoints ! 0 = numPoint (hd points)"
    using ne by (simp add: fpoints_def hd_conv_nth)
  have l: "fpoints ! (length fpoints - 1) = numPoint (last points)"
    using ne by (simp add: fpoints_def last_conv_nth)
  have bh: "\<bar>fst (hd points)\<bar> \<le> M \<and> \<bar>snd (hd points)\<bar> \<le> M"
    using assms(5) ne by simp
  have bl: "\<bar>fst (last points)\<bar> \<le> M \<and> \<bar>snd (last points)\<bar> \<le> M"
    using assms(5) ne by simp
  have "\<forall>i \<in> set [1 ..< length fpoints - 1]. \<not> fless (Num epsilon)
      (getPerpendicularDistanceFloat (fpoints ! i) (fpoints ! 0) (fpoints ! (length fpoints - 1)))"
  proof
    fix i assume "i \<in> set [1 ..< length fpoints - 1]"
    then have i: "1 \<le> i" "i < length points - 1" by (simp_all add: len)
    then have "points ! i \<in> set (butlast (tl points))"
      by (rule interior_nth)
    with assms(6) have "onChord (hd points) (last points) (points ! i)" by blast
    from onChord_param [OF this] obtain c where c: "0 \<le> c" "c \<le> 1"
      "fst (points ! i) = fst (hd points) + c * (fst (last points) - fst (hd points))"
      "snd (points ! i) = snd (hd points) + c * (snd (last points) - snd (hd points))"
      by blast
    have pi: "fpoints ! i = numPoint (points ! i)"
      using i by (simp add: fpoints_def)
    have "\<not> fless (Num (M / 2 ^ 40))
      (getPerpendicularDistanceFloat (Num (fst (points ! i)), Num (snd (points ! i)))
         (Num (fst (hd points)), Num (snd (hd points)))
         (Num (fst (last points)), Num (snd (last points))))"
      using assms(2,3) bh [THEN conjunct1] bh [THEN conjunct2] bl [THEN conjunct1]
        bl [THEN conjunct2] c
      by (rule distance_onChord)
    then show "\<not> fless (Num epsilon)
      (getPerpendicularDistanceFloat (fpoints ! i) (fpoints ! 0) (fpoints ! (length fpoints - 1)))"
      unfolding h l pi numPoint_def using assms(4) by (rule fless_mono)
  qed
  moreover have "\<not> fless (Num epsilon) (fst (Num 0, 0::nat))"
    using assms(2,4) by (simp add: order_trans [of 0 "M / 2 ^ 40" epsilon])
  ultimately have "\<not> fless (Num epsilon) (fst (farthestFloat fpoints))"
    unfolding farthestFloat_def by (rule farthestFloat_foldl_small)
  moreover have "\<not> length fpoints < 3" using assms(1) by (simp add: len)
  ultimately have "ramerDouglasPeuckerFloat fpoints (Num epsilon)
      = Some [fpoints ! 0, fpoints ! (length fpoints - 1)]"
    by (rule rdpFloat_collapse [rotated])
  then show ?thesis unfolding h l unfolding fpoints_def .
qed

theorem ramerDouglasPeuckerFloat_collinear_witness:
  "ramerDouglasPeuckerFloat (map numPoint [(0, 0), (3, 15), (7, 35), (11, 55)]) (Num (1 / 10))
     = Some [numPoint (0, 0), numPoint (11, 55)]"
  using ramerDouglasPeuckerFloat_collinear [of "[(0, 0), (3, 15), (7, 35), (11, 55)]" 55 "1 / 10"]
  by (simp add: onChord_def cross_def)

text \<open>
  C2 as stated fails, in two ways. An interior point of a collinear list that lies
  beyond the last point is measured against the clamped projection, the end of the
  chord, so its distance is not zero and it is kept: \<open>(10, 0)\<close> between \<open>(0, 0)\<close> and
  \<open>(1, 0)\<close>, at distance 9. And the distance of a point on the chord is rounded: for
  \<open>(3, 15)\<close> between \<open>(0, 0)\<close> and \<open>(11, 55)\<close> the parameter \<open>t\<close> is the double nearest to
  \<open>3 / 11\<close>, \<open>t * 55\<close> rounds to the double below 15, and the distance is \<open>2^(-49)\<close>, so
  with \<open>epsilon = 2^(-50)\<close> the point is kept. With the same points scaled by \<open>2^50\<close> the
  distance is 2 and the point is kept with \<open>epsilon = 1\<close>.
\<close>

lemma sqrt81: "sqrt 81 = 9"
  using real_sqrt_abs [of 9] by simp

lemma beyond_distance:
  "getPerpendicularDistanceFloat (Num 10, Num 0) (Num 0, Num 0) (Num 1, Num 0) = Num 9"
  by (simp add: getPerpendicularDistanceFloat_def fsub_def fl_zero fl_one fl_numeral sqrt81)

lemma beyond_farthest:
  "farthestFloat (map numPoint [(0, 0), (10, 0), (1, 0)]) = (Num 9, 1)"
  by (simp add: farthestFloat_def farthestStepFloat_def numPoint_def beyond_distance)

lemma beyond_result:
  "ramerDouglasPeuckerFloat (map numPoint [(0, 0), (10, 0), (1, 0)]) (Num 1)
     = Some (map numPoint [(0, 0), (10, 0), (1, 0)])"
  using rdpFloat_split [of "map numPoint [(0, 0), (10, 0), (1, 0)]" "Num 1", unfolded beyond_farthest]
  by (simp add: rdpFloat_short)

lemma rounding_sqrt: "sqrt (1 / 316912650057057350374175801344) = 1 / 562949953421312"
proof -
  have "sqrt ((1 / 562949953421312)\<^sup>2) = \<bar>1 / 562949953421312\<bar>"
    by (rule real_sqrt_abs)
  then show ?thesis by (simp add: power2_eq_square)
qed

lemma rounding_quotient: "fl (3 / 11) = Num (4913017775313268 / 2 ^ 54)"
  using fl_scaled [of "3 / 11" 54] by (simp add: roundTiesEven_def)

lemma rounding_product_x: "fl (4913017775313268 / 2 ^ 54 * 11) = Num 3"
  using fl_scaled [of "4913017775313268 / 2 ^ 54 * 11" 51] by (simp add: roundTiesEven_def)

lemma rounding_product_y: "fl (4913017775313268 / 2 ^ 54 * 55) = Num (8444249301319679 / 2 ^ 49)"
  using fl_scaled [of "4913017775313268 / 2 ^ 54 * 55" 49] by (simp add: roundTiesEven_def)

lemma rounding_below: "fl (8444249301319679 / 2 ^ 49) = Num (8444249301319679 / 2 ^ 49)"
  using fl_exact [of "8444249301319679 / 2 ^ 49" 49 8444249301319679] by simp

lemma rounding_ulp: "fl (1 / 2 ^ 49) = Num (1 / 2 ^ 49)"
  using fl_exact [of "1 / 2 ^ 49" 49 1] by simp

lemma rounding_ulp_square: "fl (1 / 2 ^ 98) = Num (1 / 2 ^ 98)"
  using fl_exact [of "1 / 2 ^ 98" 98 1] by simp

lemma rounding_distance:
  "getPerpendicularDistanceFloat (Num 3, Num 15) (Num 0, Num 0) (Num 11, Num 55) = Num (1 / 2 ^ 49)"
  using rounding_quotient rounding_product_x rounding_product_y rounding_below rounding_ulp
    rounding_ulp_square
  by (simp add: getPerpendicularDistanceFloat_def fsub_def fl_zero fl_one fl_numeral rounding_sqrt)

lemma rounding_farthest:
  "farthestFloat (map numPoint [(0, 0), (3, 15), (11, 55)]) = (Num (1 / 2 ^ 49), 1)"
  by (simp add: farthestFloat_def farthestStepFloat_def numPoint_def rounding_distance)

lemma rounding_result:
  "ramerDouglasPeuckerFloat (map numPoint [(0, 0), (3, 15), (11, 55)]) (Num (1 / 2 ^ 50))
     = Some (map numPoint [(0, 0), (3, 15), (11, 55)])"
  using rdpFloat_split [of "map numPoint [(0, 0), (3, 15), (11, 55)]" "Num (1 / 2 ^ 50)",
      unfolded rounding_farthest]
  by (simp add: rdpFloat_short)

lemma doubles:
  "isDouble 0" "isDouble 1" "isDouble 3" "isDouble 10" "isDouble 11" "isDouble 15" "isDouble 55"
  "isDouble (1 / 2 ^ 50)"
  using fl_exact [of "1 / 2 ^ 50" 50 1]
  by (simp_all add: isDouble_def fl_zero fl_one fl_numeral)

lemma scale_quotient_x: "fl (4913017775313268 / 2 ^ 54 * (11 * 2 ^ 50)) = Num (3 * 2 ^ 50)"
  using fl_scaled [of "4913017775313268 / 2 ^ 54 * (11 * 2 ^ 50)" 1] by (simp add: roundTiesEven_def)

lemma scale_quotient_y:
  "fl (4913017775313268 / 2 ^ 54 * (55 * 2 ^ 50)) = Num (15 * 2 ^ 50 - 2)"
  using fl_scaled_up [of 1 "4913017775313268 / 2 ^ 54 * (55 * 2 ^ 50)"]
  by (simp add: roundTiesEven_def)

lemma scale_doubles:
  "fl (11 * 2 ^ 50) = Num (11 * 2 ^ 50)" "fl (55 * 2 ^ 50) = Num (55 * 2 ^ 50)"
  "fl (3 * 2 ^ 50) = Num (3 * 2 ^ 50)" "fl (15 * 2 ^ 50) = Num (15 * 2 ^ 50)"
  "fl (33 * 2 ^ 100) = Num (33 * 2 ^ 100)" "fl (825 * 2 ^ 100) = Num (825 * 2 ^ 100)"
  "fl (858 * 2 ^ 100) = Num (858 * 2 ^ 100)" "fl (121 * 2 ^ 100) = Num (121 * 2 ^ 100)"
  "fl (3025 * 2 ^ 100) = Num (3025 * 2 ^ 100)" "fl (3146 * 2 ^ 100) = Num (3146 * 2 ^ 100)"
  "fl (8444249301319679 * 2 ^ 1) = Num (8444249301319679 * 2 ^ 1)"
  by (rule fl_exact_up [where m = 11 and k = 50], simp, simp, simp)
     (rule fl_exact_up [where m = 55 and k = 50], simp, simp, simp,
      rule fl_exact_up [where m = 3 and k = 50], simp, simp, simp,
      rule fl_exact_up [where m = 15 and k = 50], simp, simp, simp,
      rule fl_exact_up [where m = 33 and k = 100], simp, simp, simp,
      rule fl_exact_up [where m = 825 and k = 100], simp, simp, simp,
      rule fl_exact_up [where m = 858 and k = 100], simp, simp, simp,
      rule fl_exact_up [where m = 121 and k = 100], simp, simp, simp,
      rule fl_exact_up [where m = 3025 and k = 100], simp, simp, simp,
      rule fl_exact_up [where m = 3146 and k = 100], simp, simp, simp,
      rule fl_exact_up [where m = 8444249301319679 and k = 1], simp, simp, simp)

lemma scale_distance:
  "getPerpendicularDistanceFloat (Num (3 * 2 ^ 50), Num (15 * 2 ^ 50)) (Num 0, Num 0)
     (Num (11 * 2 ^ 50), Num (55 * 2 ^ 50)) = Num 2"
  using rounding_quotient scale_quotient_x scale_quotient_y scale_doubles
  by (simp add: getPerpendicularDistanceFloat_def fsub_def fl_zero fl_one fl_numeral)

lemma scale_farthest:
  "farthestFloat (map numPoint [(0, 0), (3 * 2 ^ 50, 15 * 2 ^ 50), (11 * 2 ^ 50, 55 * 2 ^ 50)])
     = (Num 2, 1)"
  using scale_distance
  by (simp add: farthestFloat_def farthestStepFloat_def numPoint_def)

lemma scale_result:
  "ramerDouglasPeuckerFloat
     (map numPoint [(0, 0), (3 * 2 ^ 50, 15 * 2 ^ 50), (11 * 2 ^ 50, 55 * 2 ^ 50)]) (Num 1)
   = Some (map numPoint [(0, 0), (3 * 2 ^ 50, 15 * 2 ^ 50), (11 * 2 ^ 50, 55 * 2 ^ 50)])"
  using rdpFloat_split
    [of "map numPoint [(0, 0), (3 * 2 ^ 50, 15 * 2 ^ 50), (11 * 2 ^ 50, 55 * 2 ^ 50)]" "Num 1",
      unfolded scale_farthest]
  by (simp add: rdpFloat_short)

lemma scale_isDouble:
  "isDouble (3 * 2 ^ 50)" "isDouble (15 * 2 ^ 50)" "isDouble (11 * 2 ^ 50)" "isDouble (55 * 2 ^ 50)"
  unfolding isDouble_def by (rule scale_doubles)+

theorem ramerDouglasPeuckerFloat_collinear_counterexample:
  "collinear [(0, 0), (10, 0), (1, 0)] \<and> isDouble 1 \<and>
   list_all (\<lambda>p. isDouble (fst p) \<and> isDouble (snd p)) [(0, 0), (10, 0), (1, 0)] \<and>
   ramerDouglasPeuckerFloat (map numPoint [(0, 0), (10, 0), (1, 0)]) (Num 1)
     = Some (map numPoint [(0, 0), (10, 0), (1, 0)]) \<and>
   ramerDouglasPeuckerFloat (map numPoint [(0, 0), (10, 0), (1, 0)]) (Num 1)
     \<noteq> Some [numPoint (0, 0), numPoint (1, 0)] \<and>
   collinear [(0, 0), (3, 15), (11, 55)] \<and> onChord (0, 0) (11, 55) (3, 15) \<and>
   (0::real) < 1 / 2 ^ 50 \<and> isDouble (1 / 2 ^ 50) \<and>
   list_all (\<lambda>p. isDouble (fst p) \<and> isDouble (snd p)) [(0, 0), (3, 15), (11, 55)] \<and>
   ramerDouglasPeuckerFloat (map numPoint [(0, 0), (3, 15), (11, 55)]) (Num (1 / 2 ^ 50))
     = Some (map numPoint [(0, 0), (3, 15), (11, 55)]) \<and>
   ramerDouglasPeuckerFloat (map numPoint [(0, 0), (3, 15), (11, 55)]) (Num (1 / 2 ^ 50))
     \<noteq> Some [numPoint (0, 0), numPoint (11, 55)] \<and>
   onChord (0, 0) (11 * 2 ^ 50, 55 * 2 ^ 50) (3 * 2 ^ 50, 15 * 2 ^ 50) \<and>
   list_all (\<lambda>p. isDouble (fst p) \<and> isDouble (snd p))
     [(0, 0), (3 * 2 ^ 50, 15 * 2 ^ 50), (11 * 2 ^ 50, 55 * 2 ^ 50)] \<and>
   ramerDouglasPeuckerFloat
     (map numPoint [(0, 0), (3 * 2 ^ 50, 15 * 2 ^ 50), (11 * 2 ^ 50, 55 * 2 ^ 50)]) (Num 1)
     = Some (map numPoint [(0, 0), (3 * 2 ^ 50, 15 * 2 ^ 50), (11 * 2 ^ 50, 55 * 2 ^ 50)]) \<and>
   ramerDouglasPeuckerFloat
     (map numPoint [(0, 0), (3 * 2 ^ 50, 15 * 2 ^ 50), (11 * 2 ^ 50, 55 * 2 ^ 50)]) (Num 1)
     \<noteq> Some [numPoint (0, 0), numPoint (11 * 2 ^ 50, 55 * 2 ^ 50)]"
  using doubles scale_isDouble beyond_result rounding_result scale_result
  by (simp add: collinear_def cross_def onChord_def)

section \<open>Path data (services/svgProcessor.ts, lines 59 to 160)\<close>

text \<open>
  \<open>parsePathData\<close> first cuts the path description into commands with the pattern
  \<open>/[a-df-z][^a-df-z]*/ig\<close> and reads the numbers of each command with
  \<open>/[-.0-9]+/g\<close> and \<open>parseFloat\<close>. The development starts after this step: a command
  is its letter and the list \<open>args\<close> of its numbers.
\<close>

type_synonym command = "char \<times> real list"

text \<open>\<open>toLowerCase\<close> and \<open>toUpperCase\<close> on a command letter.\<close>

definition toLowerCase :: "char \<Rightarrow> char" where
  "toLowerCase c =
     (case map_of (zip ''ABCDEFGHIJKLMNOPQRSTUVWXYZ'' ''abcdefghijklmnopqrstuvwxyz'') c of
        Some l \<Rightarrow> l | None \<Rightarrow> c)"

definition toUpperCase :: "char \<Rightarrow> char" where
  "toUpperCase c =
     (case map_of (zip ''abcdefghijklmnopqrstuvwxyz'' ''ABCDEFGHIJKLMNOPQRSTUVWXYZ'') c of
        Some u \<Rightarrow> u | None \<Rightarrow> c)"

text \<open>
  The variables of \<open>parsePathData\<close> that the commands update: the finished subpaths,
  the subpath under construction, the cursor (\<open>x\<close>, \<open>y\<close> in the source, here
  \<open>curX\<close>, \<open>curY\<close>) and the start of the current subpath.
\<close>

record pathState =
  paths :: "point list list"
  currentPath :: "point list"
  curX :: real
  curY :: real
  startX :: real
  startY :: real

text \<open>
  The loops over \<open>args\<close>, one function for each \<open>case\<close> of the \<open>switch\<close>. Where a
  loop reads \<open>args[i + 1]\<close> (or up to \<open>args[i + 5]\<close>) past the end of the array, the
  source computes with \<open>undefined\<close>; a real number cannot stand for that coordinate, and
  the function gives \<open>None\<close>: the input is outside what the development represents.
\<close>

fun moveTo :: "bool \<Rightarrow> bool \<Rightarrow> real list \<Rightarrow> pathState \<Rightarrow> pathState option" where
  "moveTo isRelative first [] st = Some st"
| "moveTo isRelative first [a] st = None"
| "moveTo isRelative first (a # b # args) st =
     (let px = (if isRelative then curX st + a else a);
          py = (if isRelative then curY st + b else b);
          st' = (if first then
                   st\<lparr>paths := (if currentPath st \<noteq> [] then paths st @ [currentPath st] else paths st),
                      currentPath := [(px, py)], startX := px, startY := py\<rparr>
                 else st\<lparr>currentPath := currentPath st @ [(px, py)]\<rparr>)
      in moveTo isRelative False args (st'\<lparr>curX := px, curY := py\<rparr>))"

fun lineTo :: "bool \<Rightarrow> real list \<Rightarrow> pathState \<Rightarrow> pathState option" where
  "lineTo isRelative [] st = Some st"
| "lineTo isRelative [a] st = None"
| "lineTo isRelative (a # b # args) st =
     (let px = (if isRelative then curX st + a else a);
          py = (if isRelative then curY st + b else b)
      in lineTo isRelative args
           (st\<lparr>currentPath := currentPath st @ [(px, py)], curX := px, curY := py\<rparr>))"

fun horizontalTo :: "bool \<Rightarrow> real list \<Rightarrow> pathState \<Rightarrow> pathState" where
  "horizontalTo isRelative [] st = st"
| "horizontalTo isRelative (a # args) st =
     (let px = (if isRelative then curX st + a else a)
      in horizontalTo isRelative args
           (st\<lparr>currentPath := currentPath st @ [(px, curY st)], curX := px\<rparr>))"

fun verticalTo :: "bool \<Rightarrow> real list \<Rightarrow> pathState \<Rightarrow> pathState" where
  "verticalTo isRelative [] st = st"
| "verticalTo isRelative (a # args) st =
     (let py = (if isRelative then curY st + a else a)
      in verticalTo isRelative args
           (st\<lparr>currentPath := currentPath st @ [(curX st, py)], curY := py\<rparr>))"

text \<open>One point of the flattened cubic curve, at \<open>t = t_step / steps\<close> with \<open>steps = 10\<close>.\<close>

definition bezierPoint :: "point \<Rightarrow> point \<Rightarrow> point \<Rightarrow> point \<Rightarrow> nat \<Rightarrow> point" where
  "bezierPoint p0 c1 c2 p1 t_step =
     (let t = real t_step / 10;
          it = 1 - t;
          b1 = it * it * it;
          b2 = 3 * it * it * t;
          b3 = 3 * it * t * t;
          b4 = t * t * t
      in (b1 * fst p0 + b2 * fst c1 + b3 * fst c2 + b4 * fst p1,
          b1 * snd p0 + b2 * snd c1 + b3 * snd c2 + b4 * snd p1))"

fun curveTo :: "bool \<Rightarrow> real list \<Rightarrow> pathState \<Rightarrow> pathState option" where
  "curveTo isRelative (a1 # a2 # a3 # a4 # a5 # a6 # args) st =
     (let x1 = (if isRelative then curX st + a1 else a1);
          y1 = (if isRelative then curY st + a2 else a2);
          x2 = (if isRelative then curX st + a3 else a3);
          y2 = (if isRelative then curY st + a4 else a4);
          endX = (if isRelative then curX st + a5 else a5);
          endY = (if isRelative then curY st + a6 else a6)
      in curveTo isRelative args
           (st\<lparr>currentPath := currentPath st @
                 map (bezierPoint (curX st, curY st) (x1, y1) (x2, y2) (endX, endY)) [1 ..< 11],
               curX := endX, curY := endY\<rparr>))"
| "curveTo isRelative [] st = Some st"
| "curveTo isRelative args st = None"

text \<open>\<open>case 'Z'\<close>: the cursor \<open>x\<close>, \<open>y\<close> is not assigned.\<close>

definition closePath :: "pathState \<Rightarrow> pathState" where
  "closePath st =
     (if currentPath st \<noteq> [] then
        st\<lparr>paths := paths st @ [currentPath st @ [(startX st, startY st)]], currentPath := []\<rparr>
      else st)"

text \<open>The body of \<open>commands.forEach\<close>; a letter outside \<open>M L H V C Z\<close> does nothing.\<close>

definition runCommand :: "pathState \<Rightarrow> command \<Rightarrow> pathState option" where
  "runCommand st commandStr =
     (let command = fst commandStr; args = snd commandStr;
          isRelative = (command = toLowerCase command);
          upper = toUpperCase command
      in if upper = CHR ''M'' then moveTo isRelative True args st
         else if upper = CHR ''L'' then lineTo isRelative args st
         else if upper = CHR ''H'' then Some (horizontalTo isRelative args st)
         else if upper = CHR ''V'' then Some (verticalTo isRelative args st)
         else if upper = CHR ''C'' then curveTo isRelative args st
         else if upper = CHR ''Z'' then Some (closePath st)
         else Some st)"

fun runCommands :: "pathState \<Rightarrow> command list \<Rightarrow> pathState option" where
  "runCommands st [] = Some st"
| "runCommands st (c # cs) =
     (case runCommand st c of None \<Rightarrow> None | Some st' \<Rightarrow> runCommands st' cs)"

definition parsePathData :: "command list \<Rightarrow> point list list option" where
  "parsePathData commands =
     (case runCommands \<lparr>paths = [], currentPath = [], curX = 0, curY = 0, startX = 0, startY = 0\<rparr> commands of
        None \<Rightarrow> None
      | Some st \<Rightarrow> Some (if currentPath st \<noteq> [] then paths st @ [currentPath st] else paths st))"

section \<open>Shape elements (services/svgProcessor.ts, lines 162 to 202)\<close>

text \<open>
  An element as \<open>processSVG\<close> reads it. The attributes arrive as the numbers that
  \<open>parseFloat(el.getAttribute(attr) || '0')\<close> gives; a \<open>path\<close> carries the commands of
  its \<open>d\<close> attribute, a \<open>polyline\<close> or \<open>polygon\<close> the numbers of each
  whitespace-separated piece of its \<open>points\<close> attribute. A \<open>rect\<close> carries, after
  \<open>x\<close>, \<open>y\<close>, \<open>width\<close> and \<open>height\<close>, the text of its \<open>width\<close> and \<open>height\<close>
  attributes (\<open>None\<close> when absent), which the background test compares with
  \<open>'100%'\<close>. \<open>OtherEl\<close> is any element that the selector
  \<open>'path, rect, circle, ellipse, line, polyline, polygon'\<close> does not select.
  \<open>shapeToPath\<close> writes the numbers of a \<open>rect\<close>, \<open>circle\<close>, \<open>ellipse\<close> or
  \<open>line\<close> into a path description that \<open>parsePathData\<close> reads back; the commands
  below are the ones it reads for numbers that are printed without an exponent.
\<close>

datatype element =
    PathEl "command list"
  | RectEl real real real real "string option" "string option"
  | CircleEl real real real
  | EllipseEl real real real real
  | LineEl real real real real
  | PolylineEl "real list list"
  | PolygonEl "real list list"
  | OtherEl

fun isShapeElement :: "element \<Rightarrow> bool" where
  "isShapeElement OtherEl = False"
| "isShapeElement el = True"

text \<open>
  \<open>`M ${points.replace(/\s+/g, ' L ')}`\<close>: the first piece follows \<open>M\<close>, every later
  piece follows an \<open>L\<close>.
\<close>

definition pointsToCommands :: "real list list \<Rightarrow> command list" where
  "pointsToCommands chunks =
     (case chunks of
        [] \<Rightarrow> [(CHR ''M'', [])]
      | c # cs \<Rightarrow> (CHR ''M'', c) # map (\<lambda>a. (CHR ''L'', a)) cs)"

text \<open>
  \<open>shapeToPath\<close> gives the path description and \<open>isClosed\<close>. For a \<open>path\<close>,
  \<open>d.toLowerCase().includes('z')\<close> holds exactly when some command has the letter
  \<open>z\<close> or \<open>Z\<close>, since every such letter starts a command.
\<close>

fun shapeToPath :: "element \<Rightarrow> command list \<times> bool" where
  "shapeToPath (PathEl d) = (d, list_ex (\<lambda>c. toLowerCase (fst c) = CHR ''z'') d)"
| "shapeToPath (RectEl x y w h wAttr hAttr) =
     ([(CHR ''M'', [x, y]), (CHR ''H'', [x + w]), (CHR ''V'', [y + h]), (CHR ''H'', [x]),
       (CHR ''Z'', [])], True)"
| "shapeToPath (CircleEl cx cy r) =
     ([(CHR ''M'', [cx - r, cy]), (CHR ''A'', [r, r, 0, 1, 0, cx + r, cy]),
       (CHR ''A'', [r, r, 0, 1, 0, cx - r, cy]), (CHR ''Z'', [])], True)"
| "shapeToPath (EllipseEl ecx ecy rx ry) =
     ([(CHR ''M'', [ecx - rx, ecy]), (CHR ''A'', [rx, ry, 0, 1, 0, ecx + rx, ecy]),
       (CHR ''A'', [rx, ry, 0, 1, 0, ecx - rx, ecy]), (CHR ''Z'', [])], True)"
| "shapeToPath (LineEl x1 y1 x2 y2) =
     ([(CHR ''M'', [x1, y1]), (CHR ''L'', [x2, y2])], False)"
| "shapeToPath (PolylineEl polylinePoints) = (pointsToCommands polylinePoints, False)"
| "shapeToPath (PolygonEl polygonPoints) =
     (pointsToCommands polygonPoints @ [(CHR ''Z'', [])], True)"
| "shapeToPath OtherEl = ([], False)"

section \<open>The coordinate space (services/svgProcessor.ts, lines 209 to 254)\<close>

text \<open>
  The parsed document: whether the parser reported an error, whether there is a root
  element, the numbers of the \<open>viewBox\<close> attribute after
  \<open>split(/[\s,]+/).map(parseFloat)\<close> (\<open>None\<close> when the attribute is absent or empty),
  \<open>parseFloat\<close> of the \<open>width\<close> and \<open>height\<close> attributes (\<open>0\<close> when absent), and
  the elements in document order.
\<close>

record svgDoc =
  parserError :: bool
  hasRoot :: bool
  viewBox :: "real list option"
  widthAttr :: real
  heightAttr :: real
  elements :: "element list"

record canvas =
  originX :: real
  originY :: real
  svgWidth :: real
  svgHeight :: real
  scale :: real
  translateX :: real
  translateY :: real

text \<open>Lines 222 to 254: the variables of the resizing logic.\<close>

definition resolveCanvas :: "svgDoc \<Rightarrow> bool \<Rightarrow> canvas" where
  "resolveCanvas doc shouldResize =
     (let c0 = \<lparr>originX = 0, originY = 0, svgWidth = 0, svgHeight = 0,
                scale = 1, translateX = 0, translateY = 0\<rparr>;
          c1 = (case viewBox doc of
                  Some parts \<Rightarrow>
                    (if length parts = 4 then
                       c0\<lparr>originX := parts ! 0, originY := parts ! 1,
                          svgWidth := parts ! 2, svgHeight := parts ! 3\<rparr>
                     else c0)
                | None \<Rightarrow> c0);
          c2 = (if svgWidth c1 = 0 \<or> svgHeight c1 = 0 then
                  c1\<lparr>svgWidth := widthAttr doc, svgHeight := heightAttr doc\<rparr>
                else c1)
      in if shouldResize \<and> 0 < svgWidth c2 \<and> 0 < svgHeight c2 then
           (let targetWidth = 720;
                targetHeight = 1080;
                scaleX = targetWidth / svgWidth c2;
                scaleY = targetHeight / svgHeight c2;
                s = min scaleX scaleY;
                newWidth = svgWidth c2 * s;
                newHeight = svgHeight c2 * s
            in c2\<lparr>scale := s, translateX := (targetWidth - newWidth) / 2,
                   translateY := (targetHeight - newHeight) / 2\<rparr>)
         else c2)"

text \<open>A canvas of 100 by 100 at the origin with no resizing, for the examples.\<close>

definition canvas100 :: canvas where
  "canvas100 = \<lparr>originX = 0, originY = 0, svgWidth = 100, svgHeight = 100,
                 scale = 1, translateX = 0, translateY = 0\<rparr>"

text \<open>Lines 265 to 292: the two cases in which a \<open>rect\<close> is skipped.\<close>

definition isBackgroundFrame :: "canvas \<Rightarrow> element \<Rightarrow> bool" where
  "isBackgroundFrame cv el =
     (case el of
        RectEl x y w h wAttr hAttr \<Rightarrow>
          (if wAttr = Some ''100%'' \<and> hAttr = Some ''100%'' then True
           else if 0 < svgWidth cv \<and> 0 < svgHeight cv then
             \<bar>x - originX cv\<bar> \<le> 1 \<and> \<bar>y - originY cv\<bar> \<le> 1 \<and>
             \<bar>w - svgWidth cv\<bar> \<le> 1 \<and> \<bar>h - svgHeight cv\<bar> \<le> 1
           else False)
      | _ \<Rightarrow> False)"

section \<open>One subpath (services/svgProcessor.ts, lines 297 to 339)\<close>

definition transformPoints :: "canvas \<Rightarrow> bool \<Rightarrow> point list \<Rightarrow> point list" where
  "transformPoints cv shouldResize pathPoints =
     (if shouldResize then
        map (\<lambda>p. ((fst p - originX cv) * scale cv + translateX cv,
                   (snd p - originY cv) * scale cv + translateY cv)) pathPoints
      else pathPoints)"

text \<open>
  Lines 311 to 326: the filter on points too close to the last kept point.
  \<open>filteredPoints\<close> is never empty, so its last element exists.
\<close>

definition keepIfFar :: "real \<Rightarrow> point list \<Rightarrow> point \<Rightarrow> point list" where
  "keepIfFar minDistanceSq filteredPoints currentPoint =
     (let lastPoint = filteredPoints ! (length filteredPoints - 1);
          dx = fst currentPoint - fst lastPoint;
          dy = snd currentPoint - snd lastPoint
      in if minDistanceSq < dx * dx + dy * dy then filteredPoints @ [currentPoint]
         else filteredPoints)"

definition filterClosePoints :: "real \<Rightarrow> point list \<Rightarrow> point list" where
  "filterClosePoints minDistance simplified =
     (if 0 < minDistance \<and> 0 < length simplified then
        foldl (keepIfFar (minDistance * minDistance)) [simplified ! 0] (tl simplified)
      else simplified)"

text \<open>
  Lines 330 to 339: \<open>isPathClosed\<close>, from \<open>isClosed\<close> and the ends of \<open>simplified\<close>,
  which has at least two points where the flag is computed.
\<close>

definition closureFlag :: "bool \<Rightarrow> point list \<Rightarrow> bool" where
  "closureFlag isClosed simplified =
     (if isClosed then True
      else
        (let first = simplified ! 0;
             last = simplified ! (length simplified - 1)
         in \<bar>fst first - fst last\<bar> < 1 / 10 \<and> \<bar>snd first - snd last\<bar> < 1 / 10))"

text \<open>
  The body of \<open>subPaths.forEach\<close> up to the closed flag. The outer \<open>None\<close> is a
  simplification that does not return; \<open>Some None\<close> is one of the early \<open>return\<close>s;
  otherwise the result is \<open>finalPoints\<close> and \<open>isPathClosed\<close>.
\<close>

definition processSubPath ::
  "canvas \<Rightarrow> real \<Rightarrow> bool \<Rightarrow> real \<Rightarrow> bool \<Rightarrow> point list \<Rightarrow> (point list \<times> bool) option option" where
  "processSubPath cv epsilon shouldResize minDistance isClosed pathPoints =
     (if length pathPoints < 2 then Some None
      else
        (case ramerDouglasPeucker (transformPoints cv shouldResize pathPoints) epsilon of
           None \<Rightarrow> None
         | Some simplified \<Rightarrow>
             (if length simplified < 2 then Some None
              else
                (let finalPoints = filterClosePoints minDistance simplified
                 in if length finalPoints < 2 then Some None
                    else Some (Some (finalPoints, closureFlag isClosed simplified))))))"

section \<open>Coordinate text (services/svgProcessor.ts, lines 341 to 351)\<close>

text \<open>
  A coordinate is written as \<open>`${parseFloat(p[0].toFixed(2))}`\<close>. \<open>toFixed2\<close> is
  \<open>toFixed(2)\<close>: the sign, then the nearest number of hundredths of the absolute value
  (the larger one on a tie) with exactly two decimals. \<open>parseFloat\<close> reads an optional
  minus sign, decimal digits and an optional fraction, which is all it is applied to
  here. \<open>numberToString\<close> is the conversion of a number to text inside a template, for a
  number that is a multiple of one hundredth: no trailing zeros and no decimal point
  when the fraction is zero. A number of magnitude 1e21 or more, which the source
  prints with an exponent, is not represented.
\<close>

definition digitChar :: "nat \<Rightarrow> char" where
  "digitChar n = ''0123456789'' ! n"

fun natToString :: "nat \<Rightarrow> string" where
  "natToString n = (if n < 10 then [digitChar n] else natToString (n div 10) @ [digitChar (n mod 10)])"

declare natToString.simps [simp del]

definition isDigit :: "char \<Rightarrow> bool" where
  "isDigit c \<longleftrightarrow> c \<in> set ''0123456789''"

definition digitValue :: "char \<Rightarrow> nat" where
  "digitValue c = (case map_of (zip ''0123456789'' [0, 1, 2, 3, 4, 5, 6, 7, 8, 9]) c of Some d \<Rightarrow> d | None \<Rightarrow> 0)"

definition digitsValue :: "string \<Rightarrow> nat" where
  "digitsValue ds = foldl (\<lambda>acc c. 10 * acc + digitValue c) 0 ds"

definition toFixed2 :: "real \<Rightarrow> string" where
  "toFixed2 v =
     (let n = nat \<lfloor>\<bar>v\<bar> * 100 + 1 / 2\<rfloor>
      in (if v < 0 then ''-'' else '''') @ natToString (n div 100) @ ''.'' @
         [digitChar (n mod 100 div 10), digitChar (n mod 10)])"

definition parseUnsigned :: "string \<Rightarrow> real" where
  "parseUnsigned s =
     (let ip = takeWhile isDigit s; rest = dropWhile isDigit s
      in real (digitsValue ip) +
         (case rest of
            c # f \<Rightarrow>
              (if c = CHR ''.'' then
                 (let fd = takeWhile isDigit f in real (digitsValue fd) / 10 ^ length fd)
               else 0)
          | [] \<Rightarrow> 0))"

definition parseFloat :: "string \<Rightarrow> real" where
  "parseFloat s =
     (case s of
        c # r \<Rightarrow> (if c = CHR ''-'' then - parseUnsigned r else parseUnsigned s)
      | [] \<Rightarrow> 0)"

definition numberToString :: "real \<Rightarrow> string" where
  "numberToString v =
     (let n = nat \<lfloor>\<bar>v\<bar> * 100\<rfloor>; f = n mod 100
      in (if v < 0 then ''-'' else '''') @ natToString (n div 100) @
         (if f = 0 then ''''
          else if f mod 10 = 0 then ''.'' @ [digitChar (f div 10)]
          else ''.'' @ [digitChar (f div 10), digitChar (f mod 10)]))"

definition coordToString :: "real \<Rightarrow> string" where
  "coordToString v = numberToString (parseFloat (toFixed2 v))"

text \<open>\<open>Array.prototype.join\<close> on texts.\<close>

fun join :: "string \<Rightarrow> string list \<Rightarrow> string" where
  "join sep [] = ''''"
| "join sep [s] = s"
| "join sep (s # t # ss) = s @ sep @ join sep (t # ss)"

text \<open>
  One point of \<open>coordsStr\<close>: \<open>`[${x},${y},-1]`\<close> for the last point of a closed path,
  \<open>`[${x},${y}]`\<close> otherwise; the points are joined with a comma and a line break.
\<close>

definition pointToString :: "bool \<Rightarrow> point \<Rightarrow> string" where
  "pointToString closing p =
     (if closing then ''['' @ coordToString (fst p) @ '','' @ coordToString (snd p) @ '',-1]''
      else ''['' @ coordToString (fst p) @ '','' @ coordToString (snd p) @ '']'')"

definition pointsToString :: "point list \<Rightarrow> bool \<Rightarrow> string" where
  "pointsToString pts isPathClosed =
     join '',\<newline>''
       (map (\<lambda>i. pointToString (i = length pts - 1 \<and> isPathClosed) (pts ! i)) [0 ..< length pts])"

section \<open>The pipeline (services/svgProcessor.ts, lines 207 to 361)\<close>

text \<open>
  The four rejections of \<open>processSVG\<close>: "Failed to parse SVG file.", "Invalid SVG
  file: missing root <svg> element." (both a malformed input), "No valid shapes found
  in the SVG." and "Could not extract any processable coordinates from the SVG's
  shapes.".
\<close>

datatype error = ParseFailed | MissingRoot | NoEligibleShapesError | DegenerateGeometryError

text \<open>
  \<open>subPaths.forEach\<close> and \<open>elements.forEach\<close>, collecting what is pushed on
  \<open>allShapesCoords\<close>.
\<close>

fun processSubPaths ::
  "canvas \<Rightarrow> real \<Rightarrow> bool \<Rightarrow> real \<Rightarrow> bool \<Rightarrow> point list list \<Rightarrow> string list option" where
  "processSubPaths cv epsilon shouldResize minDistance isClosed [] = Some []"
| "processSubPaths cv epsilon shouldResize minDistance isClosed (pathPoints # rest) =
     (case processSubPath cv epsilon shouldResize minDistance isClosed pathPoints of
        None \<Rightarrow> None
      | Some r \<Rightarrow>
          (case processSubPaths cv epsilon shouldResize minDistance isClosed rest of
             None \<Rightarrow> None
           | Some coords \<Rightarrow>
               Some ((case r of
                        None \<Rightarrow> []
                      | Some shape \<Rightarrow> [pointsToString (fst shape) (snd shape)]) @ coords)))"

definition processElement ::
  "canvas \<Rightarrow> real \<Rightarrow> bool \<Rightarrow> real \<Rightarrow> element \<Rightarrow> string list option" where
  "processElement cv epsilon shouldResize minDistance el =
     (if isBackgroundFrame cv el then Some []
      else
        (case parsePathData (fst (shapeToPath el)) of
           None \<Rightarrow> None
         | Some subPaths \<Rightarrow>
             processSubPaths cv epsilon shouldResize minDistance (snd (shapeToPath el)) subPaths))"

fun processElements ::
  "canvas \<Rightarrow> real \<Rightarrow> bool \<Rightarrow> real \<Rightarrow> element list \<Rightarrow> string list option" where
  "processElements cv epsilon shouldResize minDistance [] = Some []"
| "processElements cv epsilon shouldResize minDistance (el # els) =
     (case processElement cv epsilon shouldResize minDistance el of
        None \<Rightarrow> None
      | Some coords \<Rightarrow>
          (case processElements cv epsilon shouldResize minDistance els of
             None \<Rightarrow> None
           | Some others \<Rightarrow> Some (coords @ others)))"

text \<open>
  \<open>processSVG\<close> on a parsed document. \<open>None\<close>: the run has no result in this
  development (a simplification that does not return, or an undefined coordinate);
  \<open>Some (Inl e)\<close>: the promise is rejected; \<open>Some (Inr text)\<close>: it is resolved.
\<close>

definition processSVG :: "svgDoc \<Rightarrow> real \<Rightarrow> bool \<Rightarrow> real \<Rightarrow> (error + string) option" where
  "processSVG doc epsilon shouldResize minDistance =
     (if parserError doc then Some (Inl ParseFailed)
      else if \<not> hasRoot doc then Some (Inl MissingRoot)
      else
        (let cv = resolveCanvas doc shouldResize;
             els = filter isShapeElement (elements doc)
         in if length els = 0 then Some (Inl NoEligibleShapesError)
            else
              (case processElements cv epsilon shouldResize minDistance els of
                 None \<Rightarrow> None
               | Some allShapesCoords \<Rightarrow>
                   (if length allShapesCoords = 0 then Some (Inl DegenerateGeometryError)
                    else Some (Inr (join ''\<newline>\<newline>'' allShapesCoords))))))"

section \<open>Close-path and the cursor\<close>

lemma lower_z: "toLowerCase CHR ''Z'' = CHR ''z''" "toLowerCase CHR ''z'' = CHR ''z''"
  "toUpperCase CHR ''z'' = CHR ''Z''" "toUpperCase CHR ''Z'' = CHR ''Z''"
  by (simp_all add: toLowerCase_def toUpperCase_def)

lemma closePath_fields:
  "curX (closePath st) = curX st" "curY (closePath st) = curY st"
  "startX (closePath st) = startX st" "startY (closePath st) = startY st"
  "currentPath (closePath st) = []"
  by (simp_all add: closePath_def)

text \<open>
  C10: a close-path command (either case of the letter) appends the recorded start
  point to a non-empty current subpath, emits it and empties the current subpath, and
  leaves the cursor where it was: a relative \<open>l\<close>, \<open>m\<close>, \<open>h\<close>, \<open>v\<close> or \<open>c\<close>
  that follows is resolved against the cursor before the close, not against the start
  of the subpath.
\<close>

theorem closePath_keeps_cursor:
  "(runCommand st (CHR ''Z'', zargs) = Some (closePath st) \<and>
    runCommand st (CHR ''z'', zargs) = Some (closePath st)) \<and>
   (currentPath st \<noteq> [] \<longrightarrow>
      paths (closePath st) = paths st @ [currentPath st @ [(startX st, startY st)]]) \<and>
   currentPath (closePath st) = [] \<and>
   curX (closePath st) = curX st \<and> curY (closePath st) = curY st \<and>
   map_option currentPath (runCommand (closePath st) (CHR ''l'', [a, b]))
     = Some [(curX st + a, curY st + b)] \<and>
   map_option currentPath (runCommand (closePath st) (CHR ''m'', [a, b]))
     = Some [(curX st + a, curY st + b)] \<and>
   map_option currentPath (runCommand (closePath st) (CHR ''h'', [a]))
     = Some [(curX st + a, curY st)] \<and>
   map_option currentPath (runCommand (closePath st) (CHR ''v'', [b]))
     = Some [(curX st, curY st + b)] \<and>
   map_option (\<lambda>s. (curX s, curY s)) (runCommand (closePath st) (CHR ''c'', [a1, b1, a2, b2, a, b]))
     = Some (curX st + a, curY st + b)"
  by (simp add: runCommand_def toLowerCase_def toUpperCase_def closePath_fields Let_def)
    (simp add: closePath_def)

lemma path_before_close:
  "runCommands \<lparr>paths = [], currentPath = [], curX = 0, curY = 0, startX = 0, startY = 0\<rparr>
     [(CHR ''M'', [0, 0]), (CHR ''L'', [10, 0])]
   = Some \<lparr>paths = [], currentPath = [(0, 0), (10, 0)], curX = 10, curY = 0, startX = 0, startY = 0\<rparr>"
  by (simp add: runCommand_def toLowerCase_def toUpperCase_def)

theorem closePath_keeps_cursor_witness:
  "parsePathData [(CHR ''M'', [0, 0]), (CHR ''L'', [10, 0]), (CHR ''Z'', []), (CHR ''l'', [1, 1])]
     = Some [[(0, 0), (10, 0), (0, 0)], [(11, 1)]]"
proof -
  let ?st = "\<lparr>paths = [], currentPath = [(0, 0), (10, 0)], curX = 10, curY = 0,
                startX = 0, startY = 0\<rparr>"
  note k = closePath_keeps_cursor [of ?st "[]" 1 1]
  have z: "runCommand ?st (CHR ''Z'', []) = Some (closePath ?st)" using k by blast
  have p: "paths (closePath ?st) = [[(0, 0), (10, 0), (0, 0)]]" using k by simp
  have l: "map_option currentPath (runCommand (closePath ?st) (CHR ''l'', [1, 1])) = Some [(11, 1)]"
    using k by simp
  then obtain s where s: "runCommand (closePath ?st) (CHR ''l'', [1, 1]) = Some s"
    and cp: "currentPath s = [(11, 1)]" by auto
  have "paths s = paths (closePath ?st)"
    using s by (simp add: runCommand_def toLowerCase_def toUpperCase_def closePath_def Let_def) auto
  with p have ps: "paths s = [[(0, 0), (10, 0), (0, 0)]]" by simp
  have "runCommands \<lparr>paths = [], currentPath = [], curX = 0, curY = 0, startX = 0, startY = 0\<rparr>
     ([(CHR ''M'', [0, 0]), (CHR ''L'', [10, 0])] @ [(CHR ''Z'', []), (CHR ''l'', [1, 1])]) = Some s"
    using path_before_close z s 
    by (simp add: runCommand_def toLowerCase_def toUpperCase_def)
  then show ?thesis
    using cp ps by (simp add: parsePathData_def)
qed

section \<open>The transform without dimensions\<close>

definition zeroViewBoxDoc :: svgDoc where
  "zeroViewBoxDoc = \<lparr>parserError = False, hasRoot = True, viewBox = Some [10, 10, 0, 0],
     widthAttr = 0, heightAttr = 0, elements = [LineEl 10 10 20 20]\<rparr>"

lemma transformPoints_off: "transformPoints cv False pathPoints = pathPoints"
  by (simp add: transformPoints_def)

lemma zero_canvas:
  "resolveCanvas zeroViewBoxDoc True =
     \<lparr>originX = 10, originY = 10, svgWidth = 0, svgHeight = 0,
      scale = 1, translateX = 0, translateY = 0\<rparr>"
  by (simp add: resolveCanvas_def zeroViewBoxDoc_def)

lemma line_path:
  "parsePathData (fst (shapeToPath (LineEl x1 y1 x2 y2))) = Some [[(x1, y1), (x2, y2)]]"
  by (simp add: parsePathData_def runCommand_def toLowerCase_def toUpperCase_def)

lemma coord_0_10: "coordToString 0 = ''0''" "coordToString 10 = ''10''"
  by (simp_all add: coordToString_def numberToString_def toFixed2_def natToString.simps
      digitChar_def Let_def parseFloat_def parseUnsigned_def isDigit_def digitsValue_def
      digitValue_def)

lemma zero_subpath:
  "processSubPath (resolveCanvas zeroViewBoxDoc True) 1 True 0 False [(10, 10), (20, 20)]
     = Some (Some ([(0, 0), (10, 10)], False))"
  by (simp add: zero_canvas processSubPath_def transformPoints_def rdp_short
      filterClosePoints_def closureFlag_def)

text \<open>
  C9: with the fit-to-canvas option on, a view box \<open>10 10 0 0\<close> and no \<open>width\<close> and
  \<open>height\<close>, no positive width is resolved, and yet every point is moved by the origin
  of the view box: the line from \<open>(10, 10)\<close> to \<open>(20, 20)\<close> comes out as
  \<open>[0,0]\<close>, \<open>[10,10]\<close>.
\<close>

theorem transform_without_dimensions:
  "\<not> 0 < svgWidth (resolveCanvas zeroViewBoxDoc True) \<and>
   transformPoints (resolveCanvas zeroViewBoxDoc True) True [(10, 10), (20, 20)]
     = [(0, 0), (10, 10)] \<and>
   processSVG zeroViewBoxDoc 1 True 0 = Some (Inr ''[0,0],\<newline>[10,10]'')"
proof -
  have "processElement (resolveCanvas zeroViewBoxDoc True) 1 True 0 (LineEl 10 10 20 20)
      = Some [''[0,0],\<newline>[10,10]'']"
    unfolding processElement_def line_path
    by (simp add: isBackgroundFrame_def zero_subpath pointsToString_def pointToString_def coord_0_10)
  then have "processSVG zeroViewBoxDoc 1 True 0 = Some (Inr ''[0,0],\<newline>[10,10]'')"
    by (simp add: processSVG_def zeroViewBoxDoc_def [symmetric] Let_def)
      (simp add: zeroViewBoxDoc_def)
  then show ?thesis
    by (simp add: zero_canvas transformPoints_def)
qed

section \<open>The closed flag\<close>

text \<open>
  C3: for every subpath that is emitted, the closed flag is true when the path
  description signalled closure, and otherwise exactly when the first and the last
  point of the simplified list, before the filter on close points, differ by less than
  0.1 in absolute value on both axes.
\<close>

theorem closure_priority:
  assumes "processSubPath cv epsilon shouldResize minDistance isClosed pathPoints
             = Some (Some (finalPoints, isPathClosed))"
  shows "\<exists>simplified.
           ramerDouglasPeucker (transformPoints cv shouldResize pathPoints) epsilon = Some simplified \<and>
           finalPoints = filterClosePoints minDistance simplified \<and>
           (isPathClosed \<longleftrightarrow>
              isClosed \<or>
              (\<bar>fst (hd simplified) - fst (last simplified)\<bar> < 1 / 10 \<and>
               \<bar>snd (hd simplified) - snd (last simplified)\<bar> < 1 / 10))"
proof -
  from assms obtain simplified where
    s: "ramerDouglasPeucker (transformPoints cv shouldResize pathPoints) epsilon = Some simplified"
    and len: "\<not> length simplified < 2"
    and fp: "finalPoints = filterClosePoints minDistance simplified"
    and cl: "isPathClosed = closureFlag isClosed simplified"
    by (auto simp: processSubPath_def Let_def split: if_splits option.splits)
  from len have ne: "simplified \<noteq> []" by auto
  then have "simplified ! 0 = hd simplified" "simplified ! (length simplified - 1) = last simplified"
    by (simp_all add: hd_conv_nth last_conv_nth)
  then have "closureFlag isClosed simplified \<longleftrightarrow>
      isClosed \<or>
      (\<bar>fst (hd simplified) - fst (last simplified)\<bar> < 1 / 10 \<and>
       \<bar>snd (hd simplified) - snd (last simplified)\<bar> < 1 / 10)"
    unfolding closureFlag_def Let_def by simp
  with s fp cl show ?thesis by blast
qed

text \<open>
  A path whose simplified ends are 0.05 apart while the filtered ends are 10 apart: it is
  marked closed.
\<close>

lemma sqrt_near_closed: "sqrt (39601 / 400) = 199 / 20"
  using real_sqrt_abs [of "199 / 20"] by (simp add: power2_eq_square)

lemma farthest_near_closed: "farthest [(0, 0), (10, 0), (1 / 20, 0)] = (199 / 20, 1)"
  by (simp add: farthest_def farthestStep_def getPerpendicularDistance_def sqrt_near_closed)

lemma rdp_near_closed:
  "ramerDouglasPeucker [(0, 0), (10, 0), (1 / 20, 0)] 1 = Some [(0, 0), (10, 0), (1 / 20, 0)]"
  by (simp add: rdp_split farthest_near_closed rdp_short)

lemma filter_near_closed:
  "filterClosePoints (997 / 100) [(0, 0), (10, 0), (1 / 20, 0)] = [(0, 0), (10, 0)]"
  by (simp add: filterClosePoints_def keepIfFar_def)

lemma subpath_near_closed:
  "processSubPath canvas100 1 False (997 / 100) False [(0, 0), (10, 0), (1 / 20, 0)]
     = Some (Some ([(0, 0), (10, 0)], True))"
  by (simp add: processSubPath_def transformPoints_def rdp_near_closed filter_near_closed closureFlag_def)

theorem closure_priority_witness:
  "processSubPath canvas100 1 False (997 / 100) False [(0, 0), (10, 0), (1 / 20, 0)]
     = Some (Some ([(0, 0), (10, 0)], True)) \<and>
   ramerDouglasPeucker (transformPoints canvas100 False [(0, 0), (10, 0), (1 / 20, 0)]) 1
     = Some [(0, 0), (10, 0), (1 / 20, 0)] \<and>
   \<bar>fst (hd [(0 :: real, 0 :: real), (10, 0), (1 / 20, 0)])
      - fst (last [(0 :: real, 0 :: real), (10, 0), (1 / 20, 0)])\<bar> < 1 / 10 \<and>
   \<not> \<bar>fst (hd [(0 :: real, 0 :: real), (10, 0)])
      - fst (last [(0 :: real, 0 :: real), (10, 0)])\<bar> < 1 / 10"
  using closure_priority [OF subpath_near_closed]
  by (simp add: subpath_near_closed transformPoints_def rdp_near_closed filter_near_closed)

section \<open>The filter on close points\<close>











section \<open>Background frames\<close>

text \<open>
  The rule as the specification words it, on the four edges \<open>x\<close>, \<open>y\<close>,
  \<open>x + width\<close> and \<open>y + height\<close>, for comparison with \<open>isBackgroundFrame\<close>.
\<close>

definition specBackgroundFrame :: "canvas \<Rightarrow> element \<Rightarrow> bool" where
  "specBackgroundFrame cv el =
     (case el of
        RectEl x y w h wAttr hAttr \<Rightarrow>
          (wAttr = Some ''100%'' \<and> hAttr = Some ''100%'') \<or>
          (0 < svgWidth cv \<and> 0 < svgHeight cv \<and>
           \<bar>x - originX cv\<bar> \<le> 1 \<and> \<bar>y - originY cv\<bar> \<le> 1 \<and>
           \<bar>(x + w) - (originX cv + svgWidth cv)\<bar> \<le> 1 \<and>
           \<bar>(y + h) - (originY cv + svgHeight cv)\<bar> \<le> 1)
      | _ \<Rightarrow> False)"

lemma rect_path:
  "parsePathData (fst (shapeToPath (RectEl x y w h wAttr hAttr)))
     = Some [[(x, y), (x + w, y), (x + w, y + h), (x, y + h), (x, y)]]"
  by (simp add: parsePathData_def runCommand_def toLowerCase_def toUpperCase_def closePath_def Let_def)

text \<open>
  C4 (amended): a rectangle is skipped exactly when its \<open>width\<close> and \<open>height\<close>
  attributes are both the text \<open>100%\<close>, or a coordinate space was resolved and its
  \<open>x\<close> and \<open>y\<close> are within 1 unit of the origin and its width and height are within 1
  unit of the width and height of the coordinate space. A skipped rectangle adds nothing
  to the output; any other rectangle is converted to its four corners and its start
  point; a rectangle of canvas size more than 1 unit away from the origin is not
  skipped.
\<close>

theorem background_frame_rule:
  "(isBackgroundFrame cv (RectEl x y w h wAttr hAttr) \<longleftrightarrow>
      (wAttr = Some ''100%'' \<and> hAttr = Some ''100%'') \<or>
      (0 < svgWidth cv \<and> 0 < svgHeight cv \<and>
       \<bar>x - originX cv\<bar> \<le> 1 \<and> \<bar>y - originY cv\<bar> \<le> 1 \<and>
       \<bar>w - svgWidth cv\<bar> \<le> 1 \<and> \<bar>h - svgHeight cv\<bar> \<le> 1)) \<and>
   (isBackgroundFrame cv (RectEl x y w h wAttr hAttr) \<longrightarrow>
      processElement cv epsilon shouldResize minDistance (RectEl x y w h wAttr hAttr) = Some []) \<and>
   (\<not> isBackgroundFrame cv (RectEl x y w h wAttr hAttr) \<longrightarrow>
      processElement cv epsilon shouldResize minDistance (RectEl x y w h wAttr hAttr)
        = processSubPaths cv epsilon shouldResize minDistance True
            [[(x, y), (x + w, y), (x + w, y + h), (x, y + h), (x, y)]]) \<and>
   (w = svgWidth cv \<and> h = svgHeight cv \<and> (1 < \<bar>x - originX cv\<bar> \<or> 1 < \<bar>y - originY cv\<bar>) \<and>
    \<not> (wAttr = Some ''100%'' \<and> hAttr = Some ''100%'') \<longrightarrow>
      \<not> isBackgroundFrame cv (RectEl x y w h wAttr hAttr))"
proof -
  have a: "isBackgroundFrame cv (RectEl x y w h wAttr hAttr) \<longleftrightarrow>
      (wAttr = Some ''100%'' \<and> hAttr = Some ''100%'') \<or>
      (0 < svgWidth cv \<and> 0 < svgHeight cv \<and>
       \<bar>x - originX cv\<bar> \<le> 1 \<and> \<bar>y - originY cv\<bar> \<le> 1 \<and>
       \<bar>w - svgWidth cv\<bar> \<le> 1 \<and> \<bar>h - svgHeight cv\<bar> \<le> 1)"
    by (auto simp: isBackgroundFrame_def)
  have b: "isBackgroundFrame cv (RectEl x y w h wAttr hAttr) \<longrightarrow>
      processElement cv epsilon shouldResize minDistance (RectEl x y w h wAttr hAttr) = Some []"
    by (simp add: processElement_def)
  have c: "\<not> isBackgroundFrame cv (RectEl x y w h wAttr hAttr) \<longrightarrow>
      processElement cv epsilon shouldResize minDistance (RectEl x y w h wAttr hAttr)
        = processSubPaths cv epsilon shouldResize minDistance True
            [[(x, y), (x + w, y), (x + w, y + h), (x, y + h), (x, y)]]"
    unfolding processElement_def rect_path by simp
  have d: "w = svgWidth cv \<and> h = svgHeight cv \<and> (1 < \<bar>x - originX cv\<bar> \<or> 1 < \<bar>y - originY cv\<bar>) \<and>
      \<not> (wAttr = Some ''100%'' \<and> hAttr = Some ''100%'') \<longrightarrow>
      \<not> isBackgroundFrame cv (RectEl x y w h wAttr hAttr)"
    unfolding a by auto
  from a b c d show ?thesis by blast
qed

theorem background_frame_rule_witness:
  "isBackgroundFrame canvas100 (RectEl 0 0 100 100 (Some ''100'') (Some ''100'')) \<and>
   processElement canvas100 1 False 0 (RectEl 0 0 100 100 (Some ''100'') (Some ''100'')) = Some [] \<and>
   \<not> isBackgroundFrame canvas100 (RectEl 50 50 100 100 (Some ''100'') (Some ''100'')) \<and>
   processElement canvas100 1 False 0 (RectEl 50 50 100 100 (Some ''100'') (Some ''100''))
     = processSubPaths canvas100 1 False 0 True [[(50, 50), (150, 50), (150, 150), (50, 150), (50, 50)]]"
  using background_frame_rule [of canvas100 0 0 100 100 "Some ''100''" "Some ''100''" 1 False 0]
        background_frame_rule [of canvas100 50 50 100 100 "Some ''100''" "Some ''100''" 1 False 0]
  by (simp add: canvas100_def)

text \<open>
  C4 as stated fails in both directions on a canvas of 100 by 100 at the origin: the
  rectangle at \<open>x = 1\<close> of width 101 is skipped although its right edge is 2 units from
  the canvas edge, and the rectangle at \<open>x = 1\<close> of width 98 is kept although all its
  edges are within 1 unit.
\<close>

theorem background_frame_edges_counterexample:
  "isBackgroundFrame canvas100 (RectEl 1 0 101 100 (Some ''101'') (Some ''100'')) \<and>
   \<not> specBackgroundFrame canvas100 (RectEl 1 0 101 100 (Some ''101'') (Some ''100'')) \<and>
   \<not> isBackgroundFrame canvas100 (RectEl 1 0 98 100 (Some ''98'') (Some ''100'')) \<and>
   specBackgroundFrame canvas100 (RectEl 1 0 98 100 (Some ''98'') (Some ''100''))"
  by (simp add: isBackgroundFrame_def specBackgroundFrame_def canvas100_def)

section \<open>No shapes\<close>

lemma processElements_all_background:
  "\<forall>el \<in> set els. isBackgroundFrame cv el \<Longrightarrow>
     processElements cv epsilon shouldResize minDistance els = Some []"
  by (induction els) (simp_all add: processElement_def)

text \<open>
  C6 (amended): on a parsed document with a root element, when no element is of a
  recognised kind the pipeline fails with \<open>NoEligibleShapesError\<close>; when there are
  such elements and all of them are skipped as background frames it fails with
  \<open>DegenerateGeometryError\<close>. Neither run produces output.
\<close>

theorem no_shapes_errors:
  assumes "\<not> parserError doc" and "hasRoot doc"
  shows "(filter isShapeElement (elements doc) = [] \<longrightarrow>
           processSVG doc epsilon shouldResize minDistance = Some (Inl NoEligibleShapesError)) \<and>
         (filter isShapeElement (elements doc) \<noteq> [] \<and>
          (\<forall>el \<in> set (filter isShapeElement (elements doc)).
             isBackgroundFrame (resolveCanvas doc shouldResize) el) \<longrightarrow>
           processSVG doc epsilon shouldResize minDistance = Some (Inl DegenerateGeometryError))"
  using assms processElements_all_background
    [of "filter isShapeElement (elements doc)" "resolveCanvas doc shouldResize" epsilon shouldResize minDistance]
  by (simp add: processSVG_def Let_def)

definition emptyDoc :: svgDoc where
  "emptyDoc = \<lparr>parserError = False, hasRoot = True, viewBox = None, widthAttr = 100,
                heightAttr = 100, elements = [OtherEl]\<rparr>"

definition backgroundOnlyDoc :: svgDoc where
  "backgroundOnlyDoc = \<lparr>parserError = False, hasRoot = True, viewBox = None, widthAttr = 100,
                heightAttr = 100, elements = [RectEl 0 0 100 100 (Some ''100%'') (Some ''100%'')]\<rparr>"

theorem no_shapes_errors_witness:
  "processSVG emptyDoc 1 False 0 = Some (Inl NoEligibleShapesError) \<and>
   processSVG backgroundOnlyDoc 1 False 0 = Some (Inl DegenerateGeometryError)"
  using no_shapes_errors [of emptyDoc 1 False 0] no_shapes_errors [of backgroundOnlyDoc 1 False 0]
  by (simp add: emptyDoc_def backgroundOnlyDoc_def isBackgroundFrame_def)

text \<open>
  C6 as stated fails: a document whose only shape element is a background frame has no
  eligible shape after the exclusion, and the error is not \<open>NoEligibleShapesError\<close>.
\<close>

theorem background_only_counterexample:
  "filter (\<lambda>el. \<not> isBackgroundFrame (resolveCanvas backgroundOnlyDoc False) el)
     (filter isShapeElement (elements backgroundOnlyDoc)) = [] \<and>
   processSVG backgroundOnlyDoc 1 False 0 = Some (Inl DegenerateGeometryError) \<and>
   processSVG backgroundOnlyDoc 1 False 0 \<noteq> Some (Inl NoEligibleShapesError)"
  by (simp add: backgroundOnlyDoc_def isBackgroundFrame_def processSVG_def processElement_def)

section \<open>Shapes and their text (the preview component, lines 10 to 32)\<close>

text \<open>
  The type \<open>Shape\<close> of the preview component and its helper \<open>shapesToString\<close>. The
  text of the points of one shape is built by the same \<open>map\<close> and \<open>join\<close> as
  \<open>coordsStr\<close> in \<open>processSVG\<close>, and is then wrapped in \<open>`[\n${pointsStr}\n]`\<close>;
  a shape without points gives the empty text, which \<open>filter(s => s)\<close> drops.
\<close>

record Shape =
  points :: "point list"
  isClosed :: bool

definition shapeToString :: "Shape \<Rightarrow> string" where
  "shapeToString shape =
     (if length (points shape) = 0 then ''''
      else
        (let pointsStr = pointsToString (points shape) (isClosed shape)
         in if pointsStr = '''' then '''' else ''[\<newline>'' @ pointsStr @ ''\<newline>]''))"

definition shapesToString :: "Shape list \<Rightarrow> string" where
  "shapesToString shapes =
     join ''\<newline>\<newline>'' (filter (\<lambda>s. s \<noteq> '''') (map shapeToString shapes))"

section \<open>The deserializer (the preview component, lines 39 to 91)\<close>

text \<open>
  A text is a list of 8-bit characters. \<open>isSpace\<close> is the class \<open>\s\<close> of the
  patterns, and what \<open>trim\<close> removes, among these characters: tab, line feed,
  vertical tab, form feed, carriage return, space and no-break space.
\<close>

definition isSpace :: "char \<Rightarrow> bool" where
  "isSpace c \<longleftrightarrow>
     c \<in> set [CHR 0x09, CHR 0x0A, CHR 0x0B, CHR 0x0C, CHR 0x0D, CHR 0x20, CHR 0xA0]"

definition trim :: "string \<Rightarrow> string" where
  "trim s = rev (dropWhile isSpace (rev (dropWhile isSpace s)))"

text \<open>\<open>coordinates.replace(/\r\n/g, '\n')\<close>.\<close>

fun normalizeLineEndings :: "string \<Rightarrow> string" where
  "normalizeLineEndings (c # d # s) =
     (if c = CHR 0x0D \<and> d = CHR 0x0A then CHR 0x0A # normalizeLineEndings s
      else c # normalizeLineEndings (d # s))"
| "normalizeLineEndings s = s"

text \<open>
  \<open>split(/\n\s*\n/)\<close>. A separator starts at a line feed; \<open>\s*\<close> is greedy and gives
  characters back until a line feed follows, so the separator ends at the last line feed
  of the white space after its first character. \<open>sepRest\<close> gives the text after that
  line feed, \<open>None\<close> when the white space has no line feed. \<open>splitBlocks\<close> collects in
  \<open>cur\<close> the characters since the last separator.
\<close>

fun sepRest :: "string \<Rightarrow> string option" where
  "sepRest [] = None"
| "sepRest (c # s) =
     (if isSpace c then
        (case sepRest s of
           Some r \<Rightarrow> Some r
         | None \<Rightarrow> (if c = CHR 0x0A then Some s else None))
      else None)"

definition matchSeparator :: "string \<Rightarrow> string option" where
  "matchSeparator s =
     (case s of
        c # r \<Rightarrow> (if c = CHR 0x0A then sepRest r else None)
      | [] \<Rightarrow> None)"

lemma sepRest_suffix: "sepRest s = Some r \<Longrightarrow> suffix r s"
  by (induction s arbitrary: r) (auto simp: suffix_Cons split: if_splits option.splits)

lemma matchSeparator_shorter: "matchSeparator s = Some r \<Longrightarrow> length r < length s"
  by (cases s) (auto simp: matchSeparator_def split: if_splits dest!: sepRest_suffix suffix_length_le)

function splitBlocks :: "string \<Rightarrow> string \<Rightarrow> string list" where
  "splitBlocks cur [] = [cur]"
| "splitBlocks cur (c # s) =
     (case matchSeparator (c # s) of
        Some rest \<Rightarrow> cur # splitBlocks [] rest
      | None \<Rightarrow> splitBlocks (cur @ [c]) s)"
  by pat_completeness auto
termination
  by (relation "measure (\<lambda>(cur, s). length s)") (auto dest: matchSeparator_shorter)

text \<open>
  The pattern \<open>/\[\s*(-?\d+(?:\.\d+)?)\s*,\s*(-?\d+(?:\.\d+)?)\s*(?:,\s*(-1)\s*)?\]/g\<close>
  at the start of a text. No choice of the pattern can be taken in two ways that both
  lead to a match (digits, white space and the punctuation are disjoint), so the greedy
  reading decides. \<open>matchNumber\<close> is one group \<open>-?\d+(?:\.\d+)?\<close>: the matched text and
  the rest; \<open>matchClose\<close> is the optional \<open>,-1\<close> and the closing bracket;
  \<open>matchCoord\<close> gives the groups 1 and 2, whether group 3 is \<open>'-1'\<close>, and the rest
  of the text after the match.
\<close>

definition matchFraction :: "string \<Rightarrow> string \<Rightarrow> string \<times> string" where
  "matchFraction matched s =
     (case s of
        c # r \<Rightarrow>
          (if c = CHR ''.'' \<and> takeWhile isDigit r \<noteq> [] then
             (matched @ ''.'' @ takeWhile isDigit r, dropWhile isDigit r)
           else (matched, s))
      | [] \<Rightarrow> (matched, s))"

definition matchDigits :: "string \<Rightarrow> string \<Rightarrow> (string \<times> string) option" where
  "matchDigits matched s =
     (if takeWhile isDigit s = [] then None
      else Some (matchFraction (matched @ takeWhile isDigit s) (dropWhile isDigit s)))"

definition matchNumber :: "string \<Rightarrow> (string \<times> string) option" where
  "matchNumber s =
     (case s of
        c # r \<Rightarrow> (if c = CHR ''-'' then matchDigits ''-'' r else matchDigits [] s)
      | [] \<Rightarrow> None)"

type_synonym coordMatch = "string \<times> string \<times> bool"

definition matchClose :: "string \<Rightarrow> string \<Rightarrow> string \<Rightarrow> (coordMatch \<times> string) option" where
  "matchClose xs ys s =
     (case s of
        c # r \<Rightarrow>
          (if c = CHR '']'' then Some ((xs, ys, False), r)
           else if c = CHR '','' then
             (case dropWhile isSpace r of
                m # d # r2 \<Rightarrow>
                  (if m = CHR ''-'' \<and> d = CHR ''1'' then
                     (case dropWhile isSpace r2 of
                        e # r3 \<Rightarrow> (if e = CHR '']'' then Some ((xs, ys, True), r3) else None)
                      | [] \<Rightarrow> None)
                   else None)
              | _ \<Rightarrow> None)
           else None)
      | [] \<Rightarrow> None)"

definition matchCoord :: "string \<Rightarrow> (coordMatch \<times> string) option" where
  "matchCoord s =
     (case s of
        c # s1 \<Rightarrow>
          (if c = CHR ''['' then
             (case matchNumber (dropWhile isSpace s1) of
                None \<Rightarrow> None
              | Some (xs, s2) \<Rightarrow>
                  (case dropWhile isSpace s2 of
                     c2 # s3 \<Rightarrow>
                       (if c2 = CHR '','' then
                          (case matchNumber (dropWhile isSpace s3) of
                             None \<Rightarrow> None
                           | Some (ys, s4) \<Rightarrow> matchClose xs ys (dropWhile isSpace s4))
                        else None)
                   | [] \<Rightarrow> None))
           else None)
      | [] \<Rightarrow> None)"

lemma matchFraction_suffix: "suffix (snd (matchFraction matched s)) s"
  unfolding matchFraction_def
  by (auto split: list.splits intro!: suffix_ConsI suffix_dropWhile)

lemma matchDigits_suffix: "matchDigits matched s = Some (n, r) \<Longrightarrow> suffix r s"
proof -
  assume "matchDigits matched s = Some (n, r)"
  then have "r = snd (matchFraction (matched @ takeWhile isDigit s) (dropWhile isDigit s))"
    by (auto simp: matchDigits_def split: if_splits)
  then have "suffix r (dropWhile isDigit s)"
    using matchFraction_suffix by simp
  then show ?thesis
    using suffix_dropWhile suffix_order.trans by blast
qed

lemma matchNumber_suffix: "matchNumber s = Some (n, r) \<Longrightarrow> suffix r s"
  unfolding matchNumber_def
  by (auto split: list.splits if_splits dest!: matchDigits_suffix intro: suffix_ConsI)

lemma matchClose_suffix: "matchClose xs ys s = Some (m, r) \<Longrightarrow> suffix r s"
proof -
  assume a: "matchClose xs ys s = Some (m, r)"
  have d: "\<And>t c u. dropWhile isSpace t = c # u \<Longrightarrow> suffix u t"
    by (metis suffix_dropWhile suffix_ConsD)
  show ?thesis
    using a unfolding matchClose_def
    by (auto split: list.splits if_splits intro!: suffix_ConsI dest!: d dest: suffix_ConsD)
qed

lemma matchCoord_shorter:
  assumes "matchCoord s = Some (m, r)"
  shows "length r < length s"
proof -
  from assms obtain s1 xs s2 s3 ys s4 where
    s: "s = CHR ''['' # s1"
    and n1: "matchNumber (dropWhile isSpace s1) = Some (xs, s2)"
    and c: "dropWhile isSpace s2 = CHR '','' # s3"
    and n2: "matchNumber (dropWhile isSpace s3) = Some (ys, s4)"
    and cl: "matchClose xs ys (dropWhile isSpace s4) = Some (m, r)"
    unfolding matchCoord_def
    by (auto split: list.splits if_splits option.splits)
  have "length r \<le> length (dropWhile isSpace s4)"
    using matchClose_suffix [OF cl] by (rule suffix_length_le)
  also have "\<dots> \<le> length s4" by (rule length_dropWhile_le)
  also have "\<dots> \<le> length (dropWhile isSpace s3)"
    using matchNumber_suffix [OF n2] by (rule suffix_length_le)
  also have "\<dots> \<le> length s3" by (rule length_dropWhile_le)
  also have "\<dots> \<le> length (dropWhile isSpace s2)" using c by simp
  also have "\<dots> \<le> length s2" by (rule length_dropWhile_le)
  also have "\<dots> \<le> length (dropWhile isSpace s1)"
    using matchNumber_suffix [OF n1] by (rule suffix_length_le)
  also have "\<dots> \<le> length s1" by (rule length_dropWhile_le)
  finally show ?thesis using s by simp
qed

text \<open>
  The loop \<open>while ((match = coordRegex.exec(block)) !== null)\<close>: the search resumes
  after the last match; where no match starts, it moves on by one character. Every
  match is at least one character long, so the loop ends.
\<close>

function scanCoords :: "string \<Rightarrow> coordMatch list" where
  "scanCoords [] = []"
| "scanCoords (c # s) =
     (case matchCoord (c # s) of
        Some (m, rest) \<Rightarrow> m # scanCoords rest
      | None \<Rightarrow> scanCoords s)"
  by pat_completeness auto
termination
  by (relation "measure length") (auto dest: matchCoord_shorter)

text \<open>
  The body of the loop, on the pair of \<open>newShapes\<close> and \<open>currentShape\<close>; then one
  block; then all blocks.
\<close>

definition addMatch :: "Shape list \<times> Shape \<Rightarrow> coordMatch \<Rightarrow> Shape list \<times> Shape" where
  "addMatch state m =
     (let newShapes = fst state;
          currentShape = snd state;
          x = parseFloat (fst m);
          y = parseFloat (fst (snd m));
          isSeparator = snd (snd m);
          pushed = currentShape\<lparr>points := points currentShape @ [(x, y)]\<rparr>
      in if isSeparator then
           ((if 0 < length (points pushed) then newShapes @ [pushed\<lparr>isClosed := True\<rparr>]
             else newShapes),
            \<lparr>points = [], isClosed = False\<rparr>)
         else (newShapes, pushed))"

definition parseBlock :: "Shape list \<Rightarrow> string \<Rightarrow> Shape list" where
  "parseBlock newShapes block =
     (if trim block = [] then newShapes
      else
        (let state = foldl addMatch (newShapes, \<lparr>points = [], isClosed = False\<rparr>) (scanCoords block)
         in if 0 < length (points (snd state)) then fst state @ [snd state] else fst state))"

definition parseShapes :: "string \<Rightarrow> Shape list" where
  "parseShapes coordinates =
     (if trim coordinates = [] then []
      else
        (let normalizedCoordinates = normalizeLineEndings coordinates;
             shapeBlocks = splitBlocks [] (trim normalizedCoordinates)
         in foldl parseBlock [] shapeBlocks))"

section \<open>Text without a coordinate\<close>

text \<open>A text contains a coordinate-like token when the pattern matches at some position.\<close>

fun containsCoordToken :: "string \<Rightarrow> bool" where
  "containsCoordToken [] = False"
| "containsCoordToken (c # s) = (matchCoord (c # s) \<noteq> None \<or> containsCoordToken s)"

subsection \<open>A match reads a prefix\<close>

lemma dropWhile_append_head:
  "dropWhile P s = c # r \<Longrightarrow> dropWhile P (s @ t) = c # r @ t"
  by (induction s) (auto split: if_splits)

lemma takeWhile_append_head:
  "dropWhile P s = c # r \<Longrightarrow> takeWhile P (s @ t) = takeWhile P s"
  by (induction s) (auto split: if_splits)

lemma matchFraction_append:
  assumes "snd (matchFraction matched s) = c # r" and "c \<noteq> CHR ''.''"
  shows "matchFraction matched (s @ t) = (fst (matchFraction matched s), c # r @ t)"
proof (cases s)
  case Nil
  with assms show ?thesis by (simp add: matchFraction_def)
next
  case (Cons e r2)
  show ?thesis
  proof (cases "e = CHR ''.'' \<and> takeWhile isDigit r2 \<noteq> []")
    case True
    with assms Cons have r: "dropWhile isDigit r2 = c # r"
      by (simp add: matchFraction_def)
    have "takeWhile isDigit (r2 @ t) = takeWhile isDigit r2"
      using r by (rule takeWhile_append_head)
    moreover have "dropWhile isDigit (r2 @ t) = c # r @ t"
      using r by (rule dropWhile_append_head)
    ultimately show ?thesis
      using True Cons by (simp add: matchFraction_def)
  next
    case False
    with assms Cons have "e # r2 = c # r"
      by (auto simp: matchFraction_def)
    with assms(2) have "e \<noteq> CHR ''.''" by simp
    with Cons \<open>e # r2 = c # r\<close> show ?thesis
      by (simp add: matchFraction_def)
  qed
qed

lemma matchFraction_rest_nonempty:
  "snd (matchFraction matched s) = c # r \<Longrightarrow> s \<noteq> []"
  by (auto simp: matchFraction_def)

lemma matchDigits_append:
  assumes "matchDigits matched s = Some (n, c # r)" and "c \<noteq> CHR ''.''"
  shows "matchDigits matched (s @ t) = Some (n, c # r @ t)"
proof -
  from assms(1) have ip: "takeWhile isDigit s \<noteq> []"
    and f: "matchFraction (matched @ takeWhile isDigit s) (dropWhile isDigit s) = (n, c # r)"
    by (auto simp: matchDigits_def split: if_splits)
  from f have "dropWhile isDigit s \<noteq> []"
    using matchFraction_rest_nonempty [of "matched @ takeWhile isDigit s" "dropWhile isDigit s" c r]
    by simp
  then obtain e r2 where d: "dropWhile isDigit s = e # r2"
    by (cases "dropWhile isDigit s") auto
  have tk: "takeWhile isDigit (s @ t) = takeWhile isDigit s"
    using d by (rule takeWhile_append_head)
  have dr: "dropWhile isDigit (s @ t) = dropWhile isDigit s @ t"
    using dropWhile_append_head [OF d, of t] d by simp
  have "matchFraction (matched @ takeWhile isDigit s) (dropWhile isDigit s @ t) = (n, c # r @ t)"
    using matchFraction_append [of "matched @ takeWhile isDigit s" "dropWhile isDigit s" c r t] f assms(2)
    by simp
  then show ?thesis
    using ip by (simp add: matchDigits_def tk dr)
qed

lemma matchNumber_append:
  assumes "matchNumber s = Some (n, c # r)" and "c \<noteq> CHR ''.''"
  shows "matchNumber (s @ t) = Some (n, c # r @ t)"
proof (cases s)
  case Nil
  with assms show ?thesis by (simp add: matchNumber_def)
next
  case (Cons a b)
  show ?thesis
  proof (cases "a = CHR ''-''")
    case True
    with assms Cons have "matchDigits ''-'' b = Some (n, c # r)"
      by (simp add: matchNumber_def)
    from matchDigits_append [OF this assms(2), of t] show ?thesis
      using True Cons by (simp add: matchNumber_def)
  next
    case False
    with assms Cons have "matchDigits [] s = Some (n, c # r)"
      by (simp add: matchNumber_def)
    from matchDigits_append [OF this assms(2), of t] show ?thesis
      using False Cons by (simp add: matchNumber_def)
  qed
qed

lemma matchClose_append:
  assumes "matchClose xs ys s = Some (m, r)"
  shows "matchClose xs ys (s @ t) = Some (m, r @ t)"
proof -
  from assms obtain c s1 where s: "s = c # s1"
    by (cases s) (auto simp: matchClose_def)
  show ?thesis
  proof (cases "c = CHR '']''")
    case True
    with assms s show ?thesis by (simp add: matchClose_def)
  next
    case False
    with assms s obtain r2 where
      c: "c = CHR '',''" and d1: "dropWhile isSpace s1 = CHR ''-'' # CHR ''1'' # r2"
      and d2: "dropWhile isSpace r2 = CHR '']'' # r" and m: "m = (xs, ys, True)"
      by (auto simp: matchClose_def split: if_splits list.splits)
    have "dropWhile isSpace (s1 @ t) = CHR ''-'' # (CHR ''1'' # r2) @ t"
      using d1 by (rule dropWhile_append_head)
    moreover have "dropWhile isSpace (r2 @ t) = CHR '']'' # r @ t"
      using d2 by (rule dropWhile_append_head)
    ultimately show ?thesis
      using s c m by (simp add: matchClose_def)
  qed
qed

lemma matchCoord_append:
  assumes "matchCoord s = Some (m, r)"
  shows "matchCoord (s @ t) = Some (m, r @ t)"
proof -
  from assms obtain s1 xs s2 s3 ys s4 where
    s: "s = CHR ''['' # s1"
    and n1: "matchNumber (dropWhile isSpace s1) = Some (xs, s2)"
    and c: "dropWhile isSpace s2 = CHR '','' # s3"
    and n2: "matchNumber (dropWhile isSpace s3) = Some (ys, s4)"
    and cl: "matchClose xs ys (dropWhile isSpace s4) = Some (m, r)"
    unfolding matchCoord_def
    by (auto split: list.splits if_splits option.splits)
  from c obtain c2 r2 where s2: "s2 = c2 # r2" and c2: "c2 \<noteq> CHR ''.''"
    by (cases s2) (auto simp: isSpace_def split: if_splits)
  from cl obtain c4 r4 where d4: "dropWhile isSpace s4 = c4 # r4" and c4': "c4 \<noteq> CHR ''.''"
    by (cases "dropWhile isSpace s4") (auto simp: matchClose_def split: if_splits)
  then obtain c5 r5 where s4: "s4 = c5 # r5" and c5: "c5 \<noteq> CHR ''.''"
    by (cases s4) (auto simp: isSpace_def split: if_splits)
  from n1 obtain c1 r1 where d1: "dropWhile isSpace s1 = c1 # r1"
    by (cases "dropWhile isSpace s1") (auto simp: matchNumber_def)
  from n2 obtain c3 r3 where d3: "dropWhile isSpace s3 = c3 # r3"
    by (cases "dropWhile isSpace s3") (auto simp: matchNumber_def)
  have a1: "dropWhile isSpace (s1 @ t) = dropWhile isSpace s1 @ t"
    using dropWhile_append_head [OF d1, of t] d1 by simp
  have a2: "matchNumber (dropWhile isSpace s1 @ t) = Some (xs, s2 @ t)"
    using matchNumber_append [OF n1 [unfolded s2] c2, of t] s2 by simp
  have a3: "dropWhile isSpace (s2 @ t) = CHR '','' # s3 @ t"
    using c by (rule dropWhile_append_head)
  have a4: "dropWhile isSpace (s3 @ t) = dropWhile isSpace s3 @ t"
    using dropWhile_append_head [OF d3, of t] d3 by simp
  have a5: "matchNumber (dropWhile isSpace s3 @ t) = Some (ys, s4 @ t)"
    using matchNumber_append [OF n2 [unfolded s4] c5, of t] s4 by simp
  have a6: "dropWhile isSpace (s4 @ t) = dropWhile isSpace s4 @ t"
    using dropWhile_append_head [OF d4, of t] d4 by simp
  have a7: "matchClose xs ys (dropWhile isSpace s4 @ t) = Some (m, r @ t)"
    using cl by (rule matchClose_append)
  show ?thesis
    unfolding matchCoord_def s by (simp add: a1 a2 a3 a4 a5 a6 a7)
qed

lemma containsCoordToken_append: "containsCoordToken s \<Longrightarrow> containsCoordToken (s @ t)"
proof (induction s)
  case Nil
  then show ?case by simp
next
  case (Cons c s)
  show ?case
  proof (cases "matchCoord (c # s)")
    case None
    with Cons show ?thesis by simp
  next
    case (Some mr)
    then obtain m r where "matchCoord (c # s) = Some (m, r)" by (cases mr) auto
    from matchCoord_append [OF this, of t] show ?thesis by simp
  qed
qed

lemma containsCoordToken_prepend: "containsCoordToken s \<Longrightarrow> containsCoordToken (p @ s)"
  by (induction p) simp_all

lemma containsCoordToken_part:
  "containsCoordToken b \<Longrightarrow> containsCoordToken (a @ b @ c)"
  by (intro containsCoordToken_prepend containsCoordToken_append)

subsection \<open>Line endings\<close>

lemma normalize_Cons:
  "c \<noteq> CHR 0x0D \<Longrightarrow> normalizeLineEndings (c # s) = c # normalizeLineEndings s"
  by (cases s) simp_all

lemma normalize_dropWhile_space:
  "dropWhile isSpace (normalizeLineEndings s) = normalizeLineEndings (dropWhile isSpace s)"
proof (induction s rule: normalizeLineEndings.induct)
  case (1 c d s)
  show ?case
  proof (cases "c = CHR 0x0D \<and> d = CHR 0x0A")
    case True
    then have n: "normalizeLineEndings (c # d # s) = CHR 0x0A # normalizeLineEndings s"
      by simp
    have "isSpace CHR 0x0D" "isSpace CHR 0x0A" by (simp_all add: isSpace_def)
    then show ?thesis
      unfolding n using True "1.IH"(1) [OF True] by simp
  next
    case False
    then have n: "normalizeLineEndings (c # d # s) = c # normalizeLineEndings (d # s)"
      by auto
    show ?thesis
      unfolding n using "1.IH"(2) [OF False] False by auto
  qed
qed simp_all

lemma digit_not_cr: "isDigit c \<Longrightarrow> c \<noteq> CHR 0x0D"
  by (auto simp: isDigit_def)

lemma normalize_takeWhile_digit:
  "takeWhile isDigit (normalizeLineEndings s) = takeWhile isDigit s"
proof (induction s rule: normalizeLineEndings.induct)
  case (1 c d s)
  show ?case
  proof (cases "c = CHR 0x0D \<and> d = CHR 0x0A")
    case True
    then have n: "normalizeLineEndings (c # d # s) = CHR 0x0A # normalizeLineEndings s"
      by simp
    have "\<not> isDigit CHR 0x0D" "\<not> isDigit CHR 0x0A" by (simp_all add: isDigit_def)
    then show ?thesis
      unfolding n using True "1.IH"(1) [OF True] by simp
  next
    case False
    then have n: "normalizeLineEndings (c # d # s) = c # normalizeLineEndings (d # s)"
      by auto
    show ?thesis
      unfolding n using "1.IH"(2) [OF False] False by auto
  qed
qed simp_all

lemma normalize_dropWhile_digit:
  "dropWhile isDigit (normalizeLineEndings s) = normalizeLineEndings (dropWhile isDigit s)"
proof (induction s rule: normalizeLineEndings.induct)
  case (1 c d s)
  show ?case
  proof (cases "c = CHR 0x0D \<and> d = CHR 0x0A")
    case True
    then have n: "normalizeLineEndings (c # d # s) = CHR 0x0A # normalizeLineEndings s"
      by simp
    have "\<not> isDigit CHR 0x0D" "\<not> isDigit CHR 0x0A" by (simp_all add: isDigit_def)
    then show ?thesis
      unfolding n using True "1.IH"(1) [OF True] by simp
  next
    case False
    then have n: "normalizeLineEndings (c # d # s) = c # normalizeLineEndings (d # s)"
      by auto
    show ?thesis
      unfolding n using "1.IH"(2) [OF False] False by auto
  qed
qed simp_all

lemma normalize_head:
  "normalizeLineEndings s = c # r \<Longrightarrow> c \<noteq> CHR 0x0A \<Longrightarrow> c \<noteq> CHR 0x0D \<Longrightarrow>
     \<exists>r0. s = c # r0 \<and> r = normalizeLineEndings r0"
  by (induction s rule: normalizeLineEndings.induct) (auto split: if_splits)

lemma normalize_Nil: "normalizeLineEndings s = [] \<longleftrightarrow> s = []"
  by (induction s rule: normalizeLineEndings.induct) (auto split: if_splits)

lemma normalize_head_not:
  "c \<noteq> CHR 0x0A \<Longrightarrow> c \<noteq> CHR 0x0D \<Longrightarrow>
     (case normalizeLineEndings s of a # b \<Rightarrow> a = c | [] \<Rightarrow> False)
       = (case s of a # b \<Rightarrow> a = c | [] \<Rightarrow> False)"
  by (induction s rule: normalizeLineEndings.induct) (auto split: if_splits)

definition normRest :: "('a \<times> string) option \<Rightarrow> ('a \<times> string) option" where
  "normRest = map_option (\<lambda>mr. (fst mr, normalizeLineEndings (snd mr)))"

lemma matchFraction_normalize:
  "matchFraction matched (normalizeLineEndings s)
     = (fst (matchFraction matched s), normalizeLineEndings (snd (matchFraction matched s)))"
proof (cases s)
  case Nil
  then show ?thesis by (simp add: matchFraction_def)
next
  case (Cons e r)
  show ?thesis
  proof (cases "e = CHR ''.''")
    case True
    then have "normalizeLineEndings s = CHR ''.'' # normalizeLineEndings r"
      unfolding Cons by (simp add: normalize_Cons)
    then show ?thesis
      using True Cons
      by (simp add: matchFraction_def normalize_takeWhile_digit normalize_dropWhile_digit)
  next
    case False
    have "(case normalizeLineEndings s of a # b \<Rightarrow> a = CHR ''.'' | [] \<Rightarrow> False) = False"
      using normalize_head_not [of "CHR ''.''" s] False Cons by simp
    then have "matchFraction matched (normalizeLineEndings s) = (matched, normalizeLineEndings s)"
      by (cases "normalizeLineEndings s") (auto simp: matchFraction_def)
    moreover have "matchFraction matched s = (matched, s)"
      using False Cons by (simp add: matchFraction_def)
    ultimately show ?thesis by simp
  qed
qed

lemma matchDigits_normalize:
  "matchDigits matched (normalizeLineEndings s) = normRest (matchDigits matched s)"
  by (simp add: matchDigits_def normRest_def normalize_takeWhile_digit normalize_dropWhile_digit
      matchFraction_normalize)

lemma matchNumber_normalize:
  "matchNumber (normalizeLineEndings s) = normRest (matchNumber s)"
proof (cases s)
  case Nil
  then show ?thesis by (simp add: matchNumber_def normRest_def)
next
  case (Cons a b)
  show ?thesis
  proof (cases "a = CHR ''-''")
    case True
    then have "normalizeLineEndings s = CHR ''-'' # normalizeLineEndings b"
      unfolding Cons by (simp add: normalize_Cons)
    then show ?thesis
      using True Cons by (simp add: matchNumber_def matchDigits_normalize)
  next
    case False
    have "(case normalizeLineEndings s of a # b \<Rightarrow> a = CHR ''-'' | [] \<Rightarrow> False) = False"
      using normalize_head_not [of "CHR ''-''" s] False Cons by simp
    moreover have "normalizeLineEndings s \<noteq> []"
      using Cons by (simp add: normalize_Nil)
    ultimately have "matchNumber (normalizeLineEndings s) = matchDigits [] (normalizeLineEndings s)"
      by (cases "normalizeLineEndings s") (auto simp: matchNumber_def)
    moreover have "matchNumber s = matchDigits [] s"
      using False Cons by (simp add: matchNumber_def)
    ultimately show ?thesis by (simp add: matchDigits_normalize)
  qed
qed

lemma space_not_bracket: "isSpace c \<Longrightarrow> c \<noteq> CHR '']'' \<and> c \<noteq> CHR '','' \<and> c \<noteq> CHR ''-'' \<and> c \<noteq> CHR ''[''"
  by (auto simp: isSpace_def)

lemma dropWhile_space_normalize_cases:
  "dropWhile isSpace (normalizeLineEndings s) = []  \<and> dropWhile isSpace s = [] \<or>
   (\<exists>c r. dropWhile isSpace s = c # r \<and> \<not> isSpace c \<and>
          dropWhile isSpace (normalizeLineEndings s) = c # normalizeLineEndings r)"
proof (cases "dropWhile isSpace s")
  case Nil
  have "normalizeLineEndings [] = []" by simp
  then show ?thesis unfolding normalize_dropWhile_space Nil by simp
next
  case (Cons c r)
  then have ns: "\<not> isSpace c" by (metis hd_dropWhile list.sel(1) list.distinct(1))
  then have "c \<noteq> CHR 0x0D" by (auto simp: isSpace_def)
  then have "normalizeLineEndings (c # r) = c # normalizeLineEndings r" by (rule normalize_Cons)
  with ns show ?thesis unfolding normalize_dropWhile_space Cons by simp
qed

lemma matchClose_normalize:
  "matchClose xs ys (normalizeLineEndings s) = normRest (matchClose xs ys s)"
proof (cases s)
  case Nil
  then show ?thesis by (simp add: matchClose_def normRest_def)
next
  case (Cons c r)
  show ?thesis
  proof (cases "c = CHR '']'' \<or> c = CHR '',''")
    case False
    have "(case normalizeLineEndings s of a # b \<Rightarrow> a = CHR '']'' | [] \<Rightarrow> False) = False"
      using normalize_head_not [of "CHR '']''" s] False Cons by simp
    moreover have "(case normalizeLineEndings s of a # b \<Rightarrow> a = CHR '','' | [] \<Rightarrow> False) = False"
      using normalize_head_not [of "CHR '',''" s] False Cons by simp
    ultimately have "matchClose xs ys (normalizeLineEndings s) = None"
      by (cases "normalizeLineEndings s") (auto simp: matchClose_def)
    moreover have "matchClose xs ys s = None"
      using False Cons by (simp add: matchClose_def)
    ultimately show ?thesis by (simp add: normRest_def)
  next
    case True
    then have n: "normalizeLineEndings (c # r) = c # normalizeLineEndings r"
      by (intro normalize_Cons) auto
    show ?thesis
    proof (cases "c = CHR '']''")
      case True
      then show ?thesis unfolding Cons n by (simp add: matchClose_def normRest_def)
    next
      case False
      with True have c: "c = CHR '',''" by simp
      show ?thesis
      proof (cases "\<exists>r2. dropWhile isSpace r = CHR ''-'' # CHR ''1'' # r2")
        case True
        then obtain r2 where d: "dropWhile isSpace r = CHR ''-'' # CHR ''1'' # r2" by blast
        have dn: "dropWhile isSpace (normalizeLineEndings r)
            = CHR ''-'' # CHR ''1'' # normalizeLineEndings r2"
          by (simp add: normalize_dropWhile_space d normalize_Cons)
        from dropWhile_space_normalize_cases [of r2] show ?thesis
        proof
          assume "dropWhile isSpace (normalizeLineEndings r2) = [] \<and> dropWhile isSpace r2 = []"
          then have e: "dropWhile isSpace (normalizeLineEndings r2) = []" "dropWhile isSpace r2 = []"
            by blast+
          show ?thesis
            unfolding Cons n unfolding c
            by (simp add: matchClose_def normRest_def d dn e)
        next
          assume "\<exists>c r. dropWhile isSpace r2 = c # r \<and> \<not> isSpace c \<and>
            dropWhile isSpace (normalizeLineEndings r2) = c # normalizeLineEndings r"
          then obtain e r3 where e: "dropWhile isSpace r2 = e # r3"
            "dropWhile isSpace (normalizeLineEndings r2) = e # normalizeLineEndings r3"
            by blast
          show ?thesis
            unfolding Cons n unfolding c
            by (simp add: matchClose_def normRest_def d dn e)
        qed
      next
        case False
        then have a: "matchClose xs ys (CHR '','' # r) = None"
          by (auto simp: matchClose_def split: list.splits)
        have "\<not> (\<exists>r2. dropWhile isSpace (normalizeLineEndings r) = CHR ''-'' # CHR ''1'' # r2)"
        proof
          assume "\<exists>r2. dropWhile isSpace (normalizeLineEndings r) = CHR ''-'' # CHR ''1'' # r2"
          then obtain r2 where e: "normalizeLineEndings (dropWhile isSpace r) = CHR ''-'' # CHR ''1'' # r2"
            by (auto simp: normalize_dropWhile_space)
          from normalize_head [OF e] obtain r0 where
            r0: "dropWhile isSpace r = CHR ''-'' # r0" "CHR ''1'' # r2 = normalizeLineEndings r0"
            by auto
          from normalize_head [OF r0(2) [symmetric]] obtain r1 where "r0 = CHR ''1'' # r1"
            by auto
          with r0 False show False by simp
        qed
        then have "matchClose xs ys (CHR '','' # normalizeLineEndings r) = None"
          by (auto simp: matchClose_def split: list.splits)
        with a show ?thesis unfolding Cons n unfolding c by (simp add: normRest_def)
      qed
    qed
  qed
qed

lemma matchCoord_normalize:
  "matchCoord (normalizeLineEndings s) = normRest (matchCoord s)"
proof (cases "\<exists>s1. s = CHR ''['' # s1")
  case False
  then have "(case s of a # b \<Rightarrow> a = CHR ''['' | [] \<Rightarrow> False) = False"
    by (cases s) auto
  then have "(case normalizeLineEndings s of a # b \<Rightarrow> a = CHR ''['' | [] \<Rightarrow> False) = False"
    using normalize_head_not [of "CHR ''[''" s] by simp
  then have "matchCoord (normalizeLineEndings s) = None"
    by (cases "normalizeLineEndings s") (auto simp: matchCoord_def)
  moreover have "matchCoord s = None"
    using False by (cases s) (auto simp: matchCoord_def)
  ultimately show ?thesis by (simp add: normRest_def)
next
  case True
  then obtain s1 where s: "s = CHR ''['' # s1" by blast
  have n: "normalizeLineEndings (CHR ''['' # s1) = CHR ''['' # normalizeLineEndings s1"
    by (rule normalize_Cons) simp
  show ?thesis
  proof (cases "matchNumber (dropWhile isSpace s1)")
    case None
    then have "matchNumber (dropWhile isSpace (normalizeLineEndings s1)) = None"
      by (simp add: normalize_dropWhile_space matchNumber_normalize normRest_def)
    with None show ?thesis
      unfolding s n
      by (simp add: matchCoord_def normRest_def)
  next
    case (Some xr)
    then obtain xs s2 where n1: "matchNumber (dropWhile isSpace s1) = Some (xs, s2)"
      by (cases xr) auto
    have n1n: "matchNumber (dropWhile isSpace (normalizeLineEndings s1)) = Some (xs, normalizeLineEndings s2)"
      by (simp add: normalize_dropWhile_space matchNumber_normalize n1 normRest_def)
    from dropWhile_space_normalize_cases [of s2] show ?thesis
    proof
      assume "dropWhile isSpace (normalizeLineEndings s2) = [] \<and> dropWhile isSpace s2 = []"
      then have e: "dropWhile isSpace (normalizeLineEndings s2) = []" "dropWhile isSpace s2 = []"
        by blast+
      show ?thesis
        unfolding s n by (simp add: matchCoord_def n1 n1n normRest_def e)
    next
      assume "\<exists>c r. dropWhile isSpace s2 = c # r \<and> \<not> isSpace c \<and>
          dropWhile isSpace (normalizeLineEndings s2) = c # normalizeLineEndings r"
      then obtain c2 s3 where d2: "dropWhile isSpace s2 = c2 # s3"
        and d2n: "dropWhile isSpace (normalizeLineEndings s2) = c2 # normalizeLineEndings s3"
        by blast
      show ?thesis
      proof (cases "c2 = CHR '',''")
        case False
        then show ?thesis
          unfolding s n by (simp add: matchCoord_def n1 n1n d2 d2n normRest_def)
      next
        case True
        show ?thesis
        proof (cases "matchNumber (dropWhile isSpace s3)")
          case None
          then have "matchNumber (dropWhile isSpace (normalizeLineEndings s3)) = None"
            by (simp add: normalize_dropWhile_space matchNumber_normalize normRest_def)
          with None show ?thesis
            unfolding s n
            by (simp add: matchCoord_def n1 n1n d2 d2n True normRest_def)
        next
          case (Some yr)
          then obtain ys s4 where n2: "matchNumber (dropWhile isSpace s3) = Some (ys, s4)"
            by (cases yr) auto
          have n2n: "matchNumber (dropWhile isSpace (normalizeLineEndings s3))
              = Some (ys, normalizeLineEndings s4)"
            by (simp add: normalize_dropWhile_space matchNumber_normalize n2 normRest_def)
          have "matchClose xs ys (dropWhile isSpace (normalizeLineEndings s4))
              = normRest (matchClose xs ys (dropWhile isSpace s4))"
            by (simp add: normalize_dropWhile_space matchClose_normalize)
          then show ?thesis
            unfolding s n
            by (simp add: matchCoord_def n1 n1n d2 d2n True n2 n2n)
        qed
      qed
    qed
  qed
qed

lemma containsCoordToken_normalize:
  "containsCoordToken (normalizeLineEndings s) \<Longrightarrow> containsCoordToken s"
proof (induction s rule: normalizeLineEndings.induct)
  case (1 c d s)
  show ?case
  proof (cases "c = CHR 0x0D \<and> d = CHR 0x0A")
    case True
    then have n: "normalizeLineEndings (c # d # s) = CHR 0x0A # normalizeLineEndings s"
      by simp
    have "matchCoord (CHR 0x0A # normalizeLineEndings s) = None"
      by (simp add: matchCoord_def)
    with "1.prems" have "containsCoordToken (normalizeLineEndings s)"
      unfolding n by simp
    from "1.IH"(1) [OF True this] show ?thesis by simp
  next
    case False
    then have n: "normalizeLineEndings (c # d # s) = c # normalizeLineEndings (d # s)"
      by auto
    show ?thesis
    proof (cases "matchCoord (normalizeLineEndings (c # d # s))")
      case None
      with "1.prems" have "containsCoordToken (normalizeLineEndings (d # s))"
        unfolding n by simp
      from "1.IH"(2) [OF False this] show ?thesis by simp
    next
      case (Some a)
      then have "normRest (matchCoord (c # d # s)) = Some a"
        by (simp only: matchCoord_normalize)
      then have "matchCoord (c # d # s) \<noteq> None"
        by (auto simp: normRest_def)
      then show ?thesis by simp
    qed
  qed
qed simp_all

subsection \<open>Blocks are parts of the text\<close>

lemma trim_part: "\<exists>a c. s = a @ trim s @ c"
proof -
  have 1: "s = takeWhile isSpace s @ dropWhile isSpace s" by simp
  define u where "u = dropWhile isSpace s"
  have "rev u = takeWhile isSpace (rev u) @ dropWhile isSpace (rev u)" by simp
  then have "u = rev (dropWhile isSpace (rev u)) @ rev (takeWhile isSpace (rev u))"
    by (metis rev_append rev_rev_ident)
  then have "s = takeWhile isSpace s @ trim s @ rev (takeWhile isSpace (rev u))"
    using 1 unfolding trim_def u_def by simp
  then show ?thesis by blast
qed

lemma matchSeparator_suffix: "matchSeparator s = Some r \<Longrightarrow> suffix r s"
  by (cases s) (auto simp: matchSeparator_def split: if_splits dest!: sepRest_suffix intro: suffix_ConsI)

lemma splitBlocks_part:
  "b \<in> set (splitBlocks cur s) \<Longrightarrow> \<exists>a c. cur @ s = a @ b @ c"
proof (induction cur s rule: splitBlocks.induct)
  case (1 cur)
  then have "cur @ [] = [] @ b @ []" by simp
  then show ?case by blast
next
  case (2 cur c s)
  show ?case
  proof (cases "matchSeparator (c # s)")
    case None
    with 2 have "\<exists>a c'. (cur @ [c]) @ s = a @ b @ c'" by simp
    then show ?thesis by simp
  next
    case (Some rest)
    then obtain sep where sep: "c # s = sep @ rest"
      using matchSeparator_suffix by (auto simp: suffix_def)
    from "2.prems" Some have "b = cur \<or> b \<in> set (splitBlocks [] rest)" by simp
    then show ?thesis
    proof
      assume "b = cur"
      then have "cur @ c # s = [] @ b @ (c # s)" by simp
      then show ?thesis by blast
    next
      assume "b \<in> set (splitBlocks [] rest)"
      from "2.IH"(2) [OF Some this] obtain a c' where "rest = a @ b @ c'" by auto
      then have "cur @ c # s = (cur @ sep @ a) @ b @ c'" using sep by simp
      then show ?thesis by blast
    qed
  qed
qed

lemma scanCoords_none: "\<not> containsCoordToken s \<Longrightarrow> scanCoords s = []"
proof (induction s)
  case Nil
  then show ?case by simp
next
  case (Cons c s)
  then have "scanCoords s = []" by simp
  moreover have "matchCoord (c # s) = None"
    using Cons.prems by (cases "matchCoord (c # s)") simp_all
  ultimately show ?case by simp
qed

lemma parseBlock_none: "\<not> containsCoordToken block \<Longrightarrow> parseBlock newShapes block = newShapes"
  by (simp add: parseBlock_def scanCoords_none Let_def)

lemma foldl_parseBlock_none:
  "\<forall>b \<in> set blocks. \<not> containsCoordToken b \<Longrightarrow> foldl parseBlock newShapes blocks = newShapes"
  by (induction blocks arbitrary: newShapes) (simp_all add: parseBlock_none)

lemma parseShapes_empty:
  assumes "\<not> containsCoordToken coordinates"
  shows "parseShapes coordinates = []"
proof -
  have n: "\<not> containsCoordToken (normalizeLineEndings coordinates)"
    using assms containsCoordToken_normalize by blast
  have t: "\<not> containsCoordToken (trim (normalizeLineEndings coordinates))"
  proof
    assume a: "containsCoordToken (trim (normalizeLineEndings coordinates))"
    from trim_part [of "normalizeLineEndings coordinates"] obtain p q where
      "normalizeLineEndings coordinates = p @ trim (normalizeLineEndings coordinates) @ q"
      by blast
    with containsCoordToken_part [OF a, of p q] n show False by simp
  qed
  have "\<forall>b \<in> set (splitBlocks [] (trim (normalizeLineEndings coordinates))). \<not> containsCoordToken b"
  proof
    fix b assume "b \<in> set (splitBlocks [] (trim (normalizeLineEndings coordinates)))"
    from splitBlocks_part [OF this] obtain p q where
      "trim (normalizeLineEndings coordinates) = p @ b @ q" by auto
    with containsCoordToken_part [of b p q] t show "\<not> containsCoordToken b" by auto
  qed
  then have "foldl parseBlock [] (splitBlocks [] (trim (normalizeLineEndings coordinates))) = []"
    by (rule foldl_parseBlock_none)
  then show ?thesis
    by (simp add: parseShapes_def Let_def)
qed

subsection \<open>Every shape has a point\<close>

definition wellFormed :: "Shape list \<Rightarrow> bool" where
  "wellFormed shapes \<longleftrightarrow> list_all (\<lambda>sh. points sh \<noteq> []) shapes"

lemma addMatch_wellFormed:
  "wellFormed (fst state) \<Longrightarrow> wellFormed (fst (addMatch state m))"
  by (simp add: addMatch_def wellFormed_def Let_def)

lemma foldl_addMatch_wellFormed:
  "wellFormed (fst state) \<Longrightarrow> wellFormed (fst (foldl addMatch state ms))"
  by (induction ms arbitrary: state) (simp_all add: addMatch_wellFormed)

lemma parseBlock_wellFormed:
  "wellFormed newShapes \<Longrightarrow> wellFormed (parseBlock newShapes block)"
proof -
  assume a: "wellFormed newShapes"
  let ?state = "foldl addMatch (newShapes, \<lparr>points = [], isClosed = False\<rparr>) (scanCoords block)"
  have "wellFormed (fst ?state)"
    using foldl_addMatch_wellFormed [of "(newShapes, \<lparr>points = [], isClosed = False\<rparr>)"] a by simp
  then show ?thesis
    using a by (simp add: parseBlock_def Let_def wellFormed_def)
qed

lemma foldl_parseBlock_wellFormed:
  "wellFormed newShapes \<Longrightarrow> wellFormed (foldl parseBlock newShapes blocks)"
  by (induction blocks arbitrary: newShapes) (simp_all add: parseBlock_wellFormed)

lemma parseShapes_wellFormed: "wellFormed (parseShapes coordinates)"
  using foldl_parseBlock_wellFormed [of "[]"]
  by (simp add: parseShapes_def Let_def wellFormed_def)

text \<open>
  C7: the deserializer is a total function: every loop of it ends (the termination
  proofs of \<open>splitBlocks\<close> and \<open>scanCoords\<close>) and no step of it can fail. On every
  text it returns a document in which every shape has at least one point, and on a text
  that contains no coordinate-like token it returns the empty document.
\<close>

theorem parseShapes_total:
  "wellFormed (parseShapes coordinates) \<and>
   (\<not> containsCoordToken coordinates \<longrightarrow> parseShapes coordinates = [])"
  using parseShapes_wellFormed parseShapes_empty by blast

lemma no_token_example: "\<not> containsCoordToken ''x = [1, two]\<newline>\<newline>[3; 4] [5,6''"
  by (simp add: matchCoord_def matchNumber_def matchDigits_def matchFraction_def matchClose_def
      isSpace_def isDigit_def)

lemma mixed_example:
  "parseShapes ''[1,2] junk [3,4,-1][5,6]\<newline>\<newline>[7,8]'' =
     [\<lparr>points = [(1, 2), (3, 4)], isClosed = True\<rparr>, \<lparr>points = [(5, 6)], isClosed = False\<rparr>,
      \<lparr>points = [(7, 8)], isClosed = False\<rparr>]"
  apply (simp add: parseShapes_def trim_def isSpace_def matchSeparator_def)
  apply (simp add: parseBlock_def trim_def isSpace_def)
  apply (simp add: matchCoord_def matchNumber_def matchDigits_def matchFraction_def matchClose_def
      isSpace_def isDigit_def)
  apply (simp add: addMatch_def parseFloat_def parseUnsigned_def isDigit_def digitsValue_def
      digitValue_def)
  done

theorem parseShapes_total_witness:
  "parseShapes ''x = [1, two]\<newline>\<newline>[3; 4] [5,6'' = [] \<and>
   wellFormed (parseShapes ''[1,2] junk [3,4,-1][5,6]\<newline>\<newline>[7,8]'') \<and>
   parseShapes ''[1,2] junk [3,4,-1][5,6]\<newline>\<newline>[7,8]'' =
     [\<lparr>points = [(1, 2), (3, 4)], isClosed = True\<rparr>, \<lparr>points = [(5, 6)], isClosed = False\<rparr>,
      \<lparr>points = [(7, 8)], isClosed = False\<rparr>]"
  using parseShapes_total [of "''x = [1, two]\<newline>\<newline>[3; 4] [5,6''"]
        parseShapes_total [of "''[1,2] junk [3,4,-1][5,6]\<newline>\<newline>[7,8]''"]
        no_token_example mixed_example
  by simp

section \<open>Serializing what was deserialized\<close>

subsection \<open>Digits\<close>

lemma digitChar_props:
  assumes "d < 10"
  shows "isDigit (digitChar d)" and "digitValue (digitChar d) = d"
proof -
  have "d \<in> {0, 1, 2, 3, 4, 5, 6, 7, 8, 9}" using assms by auto
  then show "isDigit (digitChar d)" and "digitValue (digitChar d) = d"
    by (auto simp: digitChar_def isDigit_def digitValue_def)
qed

lemma natToString_digits: "list_all isDigit (natToString n)"
proof (induction n rule: natToString.induct)
  case (1 n)
  show ?case
  proof (cases "n < 10")
    case True
    then show ?thesis by (subst natToString.simps) (simp add: digitChar_props)
  next
    case False
    then have "n mod 10 < 10" by simp
    with 1 False show ?thesis
      by (subst natToString.simps) (simp add: digitChar_props)
  qed
qed

lemma natToString_nonempty: "natToString n \<noteq> []"
  by (subst natToString.simps) simp

lemma digitsValue_snoc: "digitsValue (ds @ [c]) = 10 * digitsValue ds + digitValue c"
  by (simp add: digitsValue_def)

lemma digitsValue_natToString: "digitsValue (natToString n) = n"
proof (induction n rule: natToString.induct)
  case (1 n)
  show ?case
  proof (cases "n < 10")
    case True
    then show ?thesis
      by (subst natToString.simps) (simp add: digitsValue_def digitChar_props)
  next
    case False
    then have "digitsValue (natToString (n div 10)) = n div 10" using 1 by simp
    moreover have "n mod 10 < 10" by simp
    ultimately show ?thesis using False
      by (subst natToString.simps) (simp add: digitsValue_snoc digitChar_props)
  qed
qed

lemma takeWhile_digits:
  "list_all isDigit ds \<Longrightarrow> (s = [] \<or> \<not> isDigit (hd s)) \<Longrightarrow> takeWhile isDigit (ds @ s) = ds"
  by (induction ds) (auto simp: takeWhile_eq_Nil_iff)

lemma dropWhile_digits:
  "list_all isDigit ds \<Longrightarrow> (s = [] \<or> \<not> isDigit (hd s)) \<Longrightarrow> dropWhile isDigit (ds @ s) = s"
  by (induction ds) (auto simp: dropWhile_eq_self_iff)

lemma not_digit: "\<not> isDigit CHR ''.''" "\<not> isDigit CHR '',''" "\<not> isDigit CHR '']''"
  "\<not> isDigit CHR ''-''" "\<not> isDigit CHR ''[''" "\<not> isDigit CHR 0x0A"
  by (simp_all add: isDigit_def)

subsection \<open>The number a coordinate is rounded to\<close>

definition hundredths :: "real \<Rightarrow> nat" where
  "hundredths v = nat \<lfloor>\<bar>v\<bar> * 100 + 1 / 2\<rfloor>"

definition rounded :: "real \<Rightarrow> real" where
  "rounded v = (if v < 0 then - (real (hundredths v) / 100) else real (hundredths v) / 100)"

lemma parseUnsigned_fixed:
  assumes "d1 < 10" "d2 < 10"
  shows "parseUnsigned (natToString k @ ''.'' @ [digitChar d1, digitChar d2])
           = real k + real (10 * d1 + d2) / 100"
proof -
  have tk: "takeWhile isDigit (natToString k @ ''.'' @ [digitChar d1, digitChar d2]) = natToString k"
    by (rule takeWhile_digits) (simp_all add: natToString_digits not_digit)
  have dr: "dropWhile isDigit (natToString k @ ''.'' @ [digitChar d1, digitChar d2])
      = CHR ''.'' # [digitChar d1, digitChar d2]"
    using dropWhile_digits [of "natToString k" "''.'' @ [digitChar d1, digitChar d2]"]
    by (simp add: natToString_digits not_digit)
  have fd: "takeWhile isDigit [digitChar d1, digitChar d2] = [digitChar d1, digitChar d2]"
    using assms by (simp add: digitChar_props)
  have fv: "digitsValue [digitChar d1, digitChar d2] = 10 * d1 + d2"
    using assms by (simp add: digitsValue_def digitChar_props)
  have "parseUnsigned (natToString k @ ''.'' @ [digitChar d1, digitChar d2])
      = real (digitsValue (natToString k)) +
        real (digitsValue [digitChar d1, digitChar d2]) / 10 ^ length [digitChar d1, digitChar d2]"
    unfolding parseUnsigned_def Let_def tk dr
    by (simp only: list.case if_True fd simp_thms)
  then show ?thesis
    by (simp add: fv digitsValue_natToString)
qed

lemma natToString_head_not_minus: "hd (natToString n) \<noteq> CHR ''-''"
proof -
  have "isDigit (hd (natToString n))"
    using natToString_digits [of n] natToString_nonempty [of n]
    by (cases "natToString n") simp_all
  then show ?thesis using not_digit by auto
qed

lemma parseFloat_unsigned:
  "s \<noteq> [] \<Longrightarrow> hd s \<noteq> CHR ''-'' \<Longrightarrow> parseFloat s = parseUnsigned s"
  by (cases s) (simp_all add: parseFloat_def)

lemma hundredths_split:
  "real (n div 100) + real (10 * (n mod 100 div 10) + n mod 10) / 100 = real n / 100"
proof -
  have "n mod 100 mod 10 = n mod 10"
    by (rule mod_mod_cancel) simp
  then have a: "10 * (n mod 100 div 10) + n mod 10 = n mod 100"
    using div_mult_mod_eq [of "n mod 100" 10] by simp
  have "real n = real (n div 100 * 100 + n mod 100)"
    by simp
  also have "\<dots> = real (n div 100) * 100 + real (n mod 100)"
    by (simp only: of_nat_add of_nat_mult of_nat_numeral)
  finally show ?thesis unfolding a by simp
qed

definition fractionDigits :: "nat \<Rightarrow> string" where
  "fractionDigits f =
     (if f = 0 then []
      else if f mod 10 = 0 then ''.'' @ [digitChar (f div 10)]
      else ''.'' @ [digitChar (f div 10), digitChar (f mod 10)])"

lemma numberToString_alt:
  "numberToString v =
     (if v < 0 then ''-'' else []) @ natToString (nat \<lfloor>\<bar>v\<bar> * 100\<rfloor> div 100) @
     fractionDigits (nat \<lfloor>\<bar>v\<bar> * 100\<rfloor> mod 100)"
  by (simp add: numberToString_def fractionDigits_def Let_def)

lemma parseFloat_toFixed2: "parseFloat (toFixed2 v) = rounded v"
proof -
  define n where "n = hundredths v"
  have d: "n mod 100 div 10 < 10" "n mod 10 < 10" by simp_all
  let ?body = "natToString (n div 100) @ ''.'' @ [digitChar (n mod 100 div 10), digitChar (n mod 10)]"
  have pu: "parseUnsigned ?body = real n / 100"
    using parseUnsigned_fixed [OF d, of "n div 100"] hundredths_split [of n] by simp
  show ?thesis
  proof (cases "v < 0")
    case True
    then have "toFixed2 v = CHR ''-'' # ?body"
      by (simp add: toFixed2_def Let_def n_def hundredths_def)
    then have "parseFloat (toFixed2 v) = - parseUnsigned ?body"
      by (simp add: parseFloat_def)
    then show ?thesis using True pu
      by (simp add: rounded_def n_def)
  next
    case False
    then have tf: "toFixed2 v = ?body"
      by (simp add: toFixed2_def Let_def n_def hundredths_def)
    have "hd ?body \<noteq> CHR ''-''"
      using natToString_head_not_minus [of "n div 100"] natToString_nonempty [of "n div 100"]
      by (simp add: hd_append)
    moreover have "?body \<noteq> []" by simp
    ultimately have "parseFloat ?body = parseUnsigned ?body"
      by (rule parseFloat_unsigned [rotated])
    then show ?thesis using False pu tf
      by (simp add: rounded_def n_def)
  qed
qed

lemma hundredths_rounded: "nat \<lfloor>\<bar>rounded v\<bar> * 100\<rfloor> = hundredths v"
  by (simp add: rounded_def)

lemma rounded_neg: "rounded v < 0 \<longleftrightarrow> v < 0 \<and> 0 < hundredths v"
  by (simp add: rounded_def)

definition signText :: "real \<Rightarrow> string" where
  "signText v = (if v < 0 \<and> 0 < hundredths v then ''-'' else [])"

lemma coordToString_alt:
  "coordToString v =
     signText v @ natToString (hundredths v div 100) @ fractionDigits (hundredths v mod 100)"
  unfolding coordToString_def parseFloat_toFixed2 numberToString_alt hundredths_rounded
  by (simp add: rounded_neg signText_def)

lemma fractionDigits_cases:
  assumes "f < 100"
  shows "fractionDigits f = [] \<and> f = 0 \<or>
         (\<exists>fd. fractionDigits f = CHR ''.'' # fd \<and> fd \<noteq> [] \<and> list_all isDigit fd \<and>
               real (digitsValue fd) / 10 ^ length fd = real f / 100)"
proof (cases "f = 0")
  case True
  then show ?thesis by (simp add: fractionDigits_def)
next
  case nz: False
  have d: "f div 10 < 10" "f mod 10 < 10" using assms by simp_all
  show ?thesis
  proof (cases "f mod 10 = 0")
    case True
    then have "f = 10 * (f div 10)" by presburger
    then have "real f = 10 * real (f div 10)"
      by (metis of_nat_mult of_nat_numeral)
    then have "real (digitsValue [digitChar (f div 10)]) / 10 ^ length [digitChar (f div 10)] = real f / 100"
      using d by (simp add: digitsValue_def digitChar_props)
    then show ?thesis
      using nz True d by (auto simp: fractionDigits_def digitChar_props)
  next
    case False
    have "f = 10 * (f div 10) + f mod 10" by simp
    then have "real f = 10 * real (f div 10) + real (f mod 10)"
      by (metis of_nat_add of_nat_mult of_nat_numeral)
    then have "real (digitsValue [digitChar (f div 10), digitChar (f mod 10)])
        / 10 ^ length [digitChar (f div 10), digitChar (f mod 10)] = real f / 100"
      using d by (simp add: digitsValue_def digitChar_props)
    then show ?thesis
      using nz False d by (auto simp: fractionDigits_def digitChar_props)
  qed
qed

lemma parseUnsigned_coord:
  assumes "f < 100"
  shows "parseUnsigned (natToString k @ fractionDigits f) = real k + real f / 100"
proof -
  from fractionDigits_cases [OF assms] show ?thesis
  proof
    assume a: "fractionDigits f = [] \<and> f = 0"
    have tk: "takeWhile isDigit (natToString k) = natToString k"
      using takeWhile_digits [of "natToString k" "[]"] by (simp add: natToString_digits)
    have dr: "dropWhile isDigit (natToString k) = []"
      using dropWhile_digits [of "natToString k" "[]"] by (simp add: natToString_digits)
    from a have e: "fractionDigits f = []" and z: "f = 0" by blast+
    show ?thesis
      unfolding e by (simp add: parseUnsigned_def Let_def digitsValue_natToString z tk dr)
  next
    assume "\<exists>fd. fractionDigits f = CHR ''.'' # fd \<and> fd \<noteq> [] \<and> list_all isDigit fd \<and>
               real (digitsValue fd) / 10 ^ length fd = real f / 100"
    then obtain fd where fr: "fractionDigits f = CHR ''.'' # fd" and fd: "list_all isDigit fd"
      and v: "real (digitsValue fd) / 10 ^ length fd = real f / 100" by blast
    have tk: "takeWhile isDigit (natToString k @ CHR ''.'' # fd) = natToString k"
      by (rule takeWhile_digits) (simp_all add: natToString_digits not_digit)
    have dr: "dropWhile isDigit (natToString k @ CHR ''.'' # fd) = CHR ''.'' # fd"
      by (rule dropWhile_digits) (simp_all add: natToString_digits not_digit)
    have tf: "takeWhile isDigit fd = fd"
      using takeWhile_digits [of fd "[]"] fd by simp
    show ?thesis
      unfolding parseUnsigned_def Let_def fr tk dr
      by (simp add: tf v digitsValue_natToString)
  qed
qed

lemma parseFloat_coordToString: "parseFloat (coordToString v) = rounded v"
proof -
  define n where "n = hundredths v"
  have f: "n mod 100 < 100" by simp
  have "real n = real (n div 100 * 100 + n mod 100)" by simp
  also have "\<dots> = real (n div 100) * 100 + real (n mod 100)"
    by (simp only: of_nat_add of_nat_mult of_nat_numeral)
  finally have val: "real (n div 100) + real (n mod 100) / 100 = real n / 100" by simp
  let ?body = "natToString (n div 100) @ fractionDigits (n mod 100)"
  have pu: "parseUnsigned ?body = real n / 100"
    using parseUnsigned_coord [OF f, of "n div 100"] val by simp
  show ?thesis
  proof (cases "v < 0 \<and> 0 < hundredths v")
    case True
    then have "coordToString v = CHR ''-'' # ?body"
      by (simp add: coordToString_alt signText_def n_def)
    then have "parseFloat (coordToString v) = - parseUnsigned ?body"
      by (simp add: parseFloat_def)
    then show ?thesis using True pu by (simp add: rounded_def n_def)
  next
    case False
    then have cs: "coordToString v = ?body"
      by (simp add: coordToString_alt signText_def n_def)
    have "hd ?body \<noteq> CHR ''-''"
      using natToString_head_not_minus [of "n div 100"] natToString_nonempty [of "n div 100"]
      by (simp add: hd_append)
    moreover have "?body \<noteq> []" by (simp add: natToString_nonempty)
    ultimately have "parseFloat ?body = parseUnsigned ?body"
      by (rule parseFloat_unsigned [rotated])
    moreover have "rounded v = real n / 100"
      using False by (auto simp: rounded_def n_def)
    ultimately show ?thesis using pu cs by simp
  qed
qed

lemma hundredths_idem: "hundredths (rounded v) = hundredths v"
proof -
  have "\<bar>rounded v\<bar> * 100 = real (hundredths v)" by (simp add: rounded_def)
  then have "hundredths (rounded v) = nat \<lfloor>real (hundredths v) + 1 / 2\<rfloor>"
    by (simp add: hundredths_def)
  also have "\<dots> = hundredths v"
    by linarith
  finally show ?thesis .
qed

lemma coordToString_idem: "coordToString (parseFloat (coordToString v)) = coordToString v"
proof -
  have "signText (rounded v) = signText v"
    by (auto simp: signText_def rounded_neg hundredths_idem)
  then have "coordToString (rounded v) = coordToString v"
    unfolding coordToString_alt hundredths_idem by simp
  then show ?thesis
    unfolding parseFloat_coordToString .
qed

lemma matchNumber_coordToString:
  assumes "\<not> isDigit c" and "c \<noteq> CHR ''.''"
  shows "matchNumber (coordToString v @ c # rest) = Some (coordToString v, c # rest)"
proof -
  define n where "n = hundredths v"
  define ip where "ip = natToString (n div 100)"
  define fr where "fr = fractionDigits (n mod 100)"
  have ipd: "list_all isDigit ip" and ipn: "ip \<noteq> []"
    by (simp_all add: ip_def natToString_digits natToString_nonempty)
  have frh: "fr @ c # rest \<noteq> [] \<and> \<not> isDigit (hd (fr @ c # rest))"
    using fractionDigits_cases [of "n mod 100"] assms(1)
    by (auto simp: fr_def not_digit)
  have tk: "takeWhile isDigit (ip @ fr @ c # rest) = ip"
    using takeWhile_digits [OF ipd, of "fr @ c # rest"] frh by simp
  have dr: "dropWhile isDigit (ip @ fr @ c # rest) = fr @ c # rest"
    using dropWhile_digits [OF ipd, of "fr @ c # rest"] frh by simp
  have f100: "n mod 100 < 100" by simp
  have mf: "matchFraction m (fr @ c # rest) = (m @ fr, c # rest)" for m
  proof -
    from fractionDigits_cases [OF f100] show ?thesis
    proof
      assume "fractionDigits (n mod 100) = [] \<and> n mod 100 = 0"
      then have "fr = []" unfolding fr_def by blast
      then show ?thesis using assms(2) by (simp add: matchFraction_def)
    next
      assume "\<exists>fd. fractionDigits (n mod 100) = CHR ''.'' # fd \<and> fd \<noteq> [] \<and> list_all isDigit fd \<and>
               real (digitsValue fd) / 10 ^ length fd = real (n mod 100) / 100"
      then obtain fd where f: "fr = CHR ''.'' # fd" "fd \<noteq> []" "list_all isDigit fd"
        unfolding fr_def by blast
      have "takeWhile isDigit (fd @ c # rest) = fd"
        using takeWhile_digits [OF f(3), of "c # rest"] assms(1) by simp
      moreover have "dropWhile isDigit (fd @ c # rest) = c # rest"
        using dropWhile_digits [OF f(3), of "c # rest"] assms(1) by simp
      ultimately show ?thesis
        using f by (simp add: matchFraction_def)
    qed
  qed
  have md: "matchDigits m (ip @ fr @ c # rest) = Some (m @ ip @ fr, c # rest)" for m
    using ipn by (simp add: matchDigits_def tk dr mf)
  have iph: "hd ip \<noteq> CHR ''-''"
    unfolding ip_def by (rule natToString_head_not_minus)
  show ?thesis
  proof (cases "v < 0 \<and> 0 < hundredths v")
    case True
    then have "coordToString v = CHR ''-'' # ip @ fr"
      by (simp add: coordToString_alt signText_def n_def ip_def fr_def)
    then show ?thesis
      using md [of "''-''"] by (simp add: matchNumber_def)
  next
    case False
    then have cs: "coordToString v = ip @ fr"
      by (simp add: coordToString_alt signText_def n_def ip_def fr_def)
    obtain a b where ab: "ip = a # b" using ipn by (cases ip) auto
    with iph have "a \<noteq> CHR ''-''" by simp
    then have "matchNumber (ip @ fr @ c # rest) = matchDigits [] (ip @ fr @ c # rest)"
      unfolding ab by (simp add: matchNumber_def)
    then show ?thesis using md [of "[]"] cs by simp
  qed
qed

subsection \<open>The text of the points of a shape\<close>

fun pointTexts :: "point list \<Rightarrow> bool \<Rightarrow> string list" where
  "pointTexts [] isPathClosed = []"
| "pointTexts [p] isPathClosed = [pointToString isPathClosed p]"
| "pointTexts (p # q # ps) isPathClosed = pointToString False p # pointTexts (q # ps) isPathClosed"

lemma map_index_Cons:
  "map (\<lambda>i. f i ((p # ps) ! i)) [0 ..< length (p # ps)]
     = f 0 p # map (\<lambda>i. f (Suc i) (ps ! i)) [0 ..< length ps]"
proof -
  have "[0 ..< Suc (length ps)] = 0 # [Suc 0 ..< Suc (length ps)]"
    by (rule upt_conv_Cons) simp
  also have "[Suc 0 ..< Suc (length ps)] = map Suc [0 ..< length ps]"
    by (rule map_Suc_upt [symmetric])
  finally have "[0 ..< length (p # ps)] = 0 # map Suc [0 ..< length ps]"
    by simp
  then show ?thesis by (simp add: comp_def del: upt_Suc)
qed

lemma pointTexts_index:
  "map (\<lambda>i. pointToString (i + k = length pts + k - 1 \<and> isPathClosed) (pts ! i)) [0 ..< length pts]
     = pointTexts pts isPathClosed"
proof (induction pts isPathClosed arbitrary: k rule: pointTexts.induct)
  case (1 isPathClosed)
  then show ?case by simp
next
  case (2 p isPathClosed)
  then show ?case by simp
next
  case (3 p q ps isPathClosed)
  have "map (\<lambda>i. pointToString (i + k = length (p # q # ps) + k - 1 \<and> isPathClosed) ((p # q # ps) ! i))
          [0 ..< length (p # q # ps)]
      = pointToString (0 + k = length (p # q # ps) + k - 1 \<and> isPathClosed) p #
        map (\<lambda>i. pointToString (Suc i + k = length (p # q # ps) + k - 1 \<and> isPathClosed) ((q # ps) ! i))
          [0 ..< length (q # ps)]"
    by (rule map_index_Cons [of "\<lambda>i. pointToString (i + k = length (p # q # ps) + k - 1 \<and> isPathClosed)"])
  also have "\<dots> = pointToString False p #
        map (\<lambda>i. pointToString (i + Suc k = length (q # ps) + Suc k - 1 \<and> isPathClosed) ((q # ps) ! i))
          [0 ..< length (q # ps)]"
    by simp
  also have "\<dots> = pointToString False p # pointTexts (q # ps) isPathClosed"
    using "3.IH" [of "Suc k"] by simp
  finally show ?case by simp
qed

lemma pointsToString_texts:
  "pointsToString pts isPathClosed = join '',\<newline>'' (pointTexts pts isPathClosed)"
  using pointTexts_index [of 0 pts isPathClosed] by (simp add: pointsToString_def)

subsection \<open>Scanning the text of a point\<close>

lemma coordToString_head:
  "coordToString v \<noteq> [] \<and> \<not> isSpace (hd (coordToString v))"
proof -
  have "isDigit (hd (natToString (hundredths v div 100)))"
    using natToString_digits [of "hundredths v div 100"] natToString_nonempty [of "hundredths v div 100"]
    by (cases "natToString (hundredths v div 100)") simp_all
  then have "\<not> isSpace (hd (natToString (hundredths v div 100)))"
    by (auto simp: isDigit_def isSpace_def)
  then show ?thesis
    using natToString_nonempty [of "hundredths v div 100"]
    by (auto simp: coordToString_alt signText_def hd_append isSpace_def)
qed

lemma dropWhile_space_coord:
  "dropWhile isSpace (coordToString v @ s) = coordToString v @ s"
  using coordToString_head [of v] by (cases "coordToString v") simp_all

lemma matchCoord_point:
  "matchCoord (pointToString isPathClosed p @ rest)
     = Some ((coordToString (fst p), coordToString (snd p), isPathClosed), rest)"
proof -
  let ?X = "coordToString (fst p)" and ?Y = "coordToString (snd p)"
  have sp: "\<not> isSpace CHR '',''" "\<not> isSpace CHR '']''" "\<not> isSpace CHR ''-''"
    by (simp_all add: isSpace_def)
  show ?thesis
  proof (cases isPathClosed)
    case False
    have n1: "matchNumber (?X @ CHR '','' # ?Y @ CHR '']'' # rest) = Some (?X, CHR '','' # ?Y @ CHR '']'' # rest)"
      by (rule matchNumber_coordToString) (simp_all add: not_digit)
    have n2: "matchNumber (?Y @ CHR '']'' # rest) = Some (?Y, CHR '']'' # rest)"
      by (rule matchNumber_coordToString) (simp_all add: not_digit)
    have d1: "dropWhile isSpace (?X @ CHR '','' # ?Y @ CHR '']'' # rest) = ?X @ CHR '','' # ?Y @ CHR '']'' # rest"
      by (rule dropWhile_space_coord)
    have d2: "dropWhile isSpace (?Y @ CHR '']'' # rest) = ?Y @ CHR '']'' # rest"
      by (rule dropWhile_space_coord)
    have "pointToString isPathClosed p @ rest = CHR ''['' # ?X @ CHR '','' # ?Y @ CHR '']'' # rest"
      using False by (simp add: pointToString_def)
    then show ?thesis
      using False by (simp add: matchCoord_def d1 n1 sp d2 n2 matchClose_def)
  next
    case True
    let ?tail = "CHR '','' # CHR ''-'' # CHR ''1'' # CHR '']'' # rest"
    have n1: "matchNumber (?X @ CHR '','' # ?Y @ ?tail) = Some (?X, CHR '','' # ?Y @ ?tail)"
      by (rule matchNumber_coordToString) (simp_all add: not_digit)
    have n2: "matchNumber (?Y @ ?tail) = Some (?Y, ?tail)"
      by (rule matchNumber_coordToString) (simp_all add: not_digit)
    have d1: "dropWhile isSpace (?X @ CHR '','' # ?Y @ ?tail) = ?X @ CHR '','' # ?Y @ ?tail"
      by (rule dropWhile_space_coord)
    have d2: "dropWhile isSpace (?Y @ ?tail) = ?Y @ ?tail"
      by (rule dropWhile_space_coord)
    have "pointToString isPathClosed p @ rest = CHR ''['' # ?X @ CHR '','' # ?Y @ ?tail"
      using True by (simp add: pointToString_def)
    then show ?thesis
      using True by (simp add: matchCoord_def d1 n1 sp d2 n2 matchClose_def)
  qed
qed

lemma pointToString_nonempty: "pointToString isPathClosed p \<noteq> []"
  by (simp add: pointToString_def)

lemma scanCoords_point:
  "scanCoords (pointToString isPathClosed p @ rest)
     = (coordToString (fst p), coordToString (snd p), isPathClosed) # scanCoords rest"
proof -
  obtain c s where cs: "pointToString isPathClosed p @ rest = c # s"
    using pointToString_nonempty [of isPathClosed p] by (cases "pointToString isPathClosed p @ rest") auto
  show ?thesis
    using matchCoord_point [of isPathClosed p rest] unfolding cs by simp
qed

lemma scanCoords_skip: "c \<noteq> CHR ''['' \<Longrightarrow> scanCoords (c # s) = scanCoords s"
  by (simp add: matchCoord_def)

fun pointTokens :: "point list \<Rightarrow> bool \<Rightarrow> coordMatch list" where
  "pointTokens [] isPathClosed = []"
| "pointTokens [p] isPathClosed = [(coordToString (fst p), coordToString (snd p), isPathClosed)]"
| "pointTokens (p # q # ps) isPathClosed =
     (coordToString (fst p), coordToString (snd p), False) # pointTokens (q # ps) isPathClosed"

lemma scanCoords_tail: "scanCoords ''\<newline>]'' = []"
  by (simp add: matchCoord_def)

lemma scanCoords_points:
  "scanCoords (join '',\<newline>'' (pointTexts pts isPathClosed) @ ''\<newline>]'') = pointTokens pts isPathClosed"
proof (induction pts isPathClosed rule: pointTexts.induct)
  case (1 isPathClosed)
  then show ?case using scanCoords_tail by simp
next
  case (2 p isPathClosed)
  then show ?case by (simp only: pointTexts.simps join.simps scanCoords_point scanCoords_tail pointTokens.simps)
next
  case (3 p q ps isPathClosed)
  let ?rest = "join '',\<newline>'' (pointTexts (q # ps) isPathClosed) @ ''\<newline>]''"
  have "join '',\<newline>'' (pointTexts (p # q # ps) isPathClosed) @ ''\<newline>]''
      = pointToString False p @ (CHR '','' # CHR 0x0A # ?rest)"
    by (cases ps) simp_all
  moreover have "scanCoords (CHR '','' # CHR 0x0A # ?rest) = scanCoords ?rest"
    using scanCoords_skip [of "CHR '',''" "CHR 0x0A # ?rest"] scanCoords_skip [of "CHR 0x0A" ?rest]
    by simp
  ultimately show ?case
    using 3 by (simp only: scanCoords_point pointTokens.simps)
qed

lemma join_Cons: "ts \<noteq> [] \<Longrightarrow> join sep (t # ts) = t @ sep @ join sep ts"
  by (cases ts) simp_all

lemma length_pointTexts: "length (pointTexts pts isPathClosed) = length pts"
  by (induction pts isPathClosed rule: pointTexts.induct) simp_all

lemma pointTexts_Nil: "pointTexts pts isPathClosed = [] \<longleftrightarrow> pts = []"
  using length_pointTexts [of pts isPathClosed] by (metis length_0_conv)

lemma pointTexts_head:
  "pts \<noteq> [] \<Longrightarrow> \<exists>r. join '',\<newline>'' (pointTexts pts isPathClosed) = CHR ''['' # r"
proof -
  assume "pts \<noteq> []"
  then obtain p ps where p: "pts = p # ps" by (cases pts) auto
  show ?thesis
  proof (cases ps)
    case Nil
    then show ?thesis unfolding p by (simp add: pointToString_def)
  next
    case (Cons q qs)
    have "pointTexts (q # qs) isPathClosed \<noteq> []" by (simp add: pointTexts_Nil)
    then show ?thesis unfolding p Cons by (simp add: join_Cons pointToString_def)
  qed
qed

lemma scanCoords_shape:
  assumes "pts \<noteq> []"
  shows "scanCoords (''[\<newline>'' @ pointsToString pts isPathClosed @ ''\<newline>]'')
           = pointTokens pts isPathClosed"
proof -
  from pointTexts_head [OF assms] obtain r where
    r: "join '',\<newline>'' (pointTexts pts isPathClosed) = CHR ''['' # r" by blast
  have "matchCoord (CHR ''['' # CHR 0x0A # CHR ''['' # r @ ''\<newline>]'') = None"
    by (simp add: matchCoord_def isSpace_def matchNumber_def matchDigits_def not_digit)
  then have "scanCoords (CHR ''['' # CHR 0x0A # CHR ''['' # r @ ''\<newline>]'')
      = scanCoords (CHR 0x0A # CHR ''['' # r @ ''\<newline>]'')"
    by simp
  also have "\<dots> = scanCoords ((CHR ''['' # r) @ ''\<newline>]'')"
    using scanCoords_skip [of "CHR 0x0A" "CHR ''['' # r @ ''\<newline>]''"] by simp
  also have "\<dots> = pointTokens pts isPathClosed"
    unfolding r [symmetric] by (rule scanCoords_points)
  finally show ?thesis
    unfolding pointsToString_texts r by simp
qed

subsection \<open>Building the shape of a block\<close>

definition roundPoint :: "point \<Rightarrow> point" where
  "roundPoint p = (parseFloat (coordToString (fst p)), parseFloat (coordToString (snd p)))"

definition roundShape :: "Shape \<Rightarrow> Shape" where
  "roundShape shape = \<lparr>points = map roundPoint (points shape), isClosed = isClosed shape\<rparr>"

lemma addMatch_open:
  "addMatch (shapes, cur) (coordToString a, coordToString b, False)
     = (shapes, cur\<lparr>points := points cur @ [roundPoint (a, b)]\<rparr>)"
  by (simp add: addMatch_def roundPoint_def Let_def)

lemma addMatch_closing:
  "addMatch (shapes, cur) (coordToString a, coordToString b, True)
     = (shapes @ [cur\<lparr>points := points cur @ [roundPoint (a, b)], isClosed := True\<rparr>],
        \<lparr>points = [], isClosed = False\<rparr>)"
  by (simp add: addMatch_def roundPoint_def Let_def)

lemma foldl_addMatch_points:
  "pts \<noteq> [] \<Longrightarrow>
   foldl addMatch (shapes, cur) (pointTokens pts isPathClosed)
     = (if isPathClosed then
          (shapes @ [cur\<lparr>points := points cur @ map roundPoint pts, isClosed := True\<rparr>],
           \<lparr>points = [], isClosed = False\<rparr>)
        else (shapes, cur\<lparr>points := points cur @ map roundPoint pts\<rparr>))"
proof (induction pts isPathClosed arbitrary: cur rule: pointTokens.induct)
  case (1 isPathClosed)
  then show ?case by simp
next
  case (2 p isPathClosed)
  show ?case
    using addMatch_open [of shapes cur "fst p" "snd p"] addMatch_closing [of shapes cur "fst p" "snd p"]
    by (cases isPathClosed) simp_all
next
  case (3 p q ps isPathClosed)
  have "foldl addMatch (shapes, cur) (pointTokens (p # q # ps) isPathClosed)
      = foldl addMatch (shapes, cur\<lparr>points := points cur @ [roundPoint p]\<rparr>)
          (pointTokens (q # ps) isPathClosed)"
    using addMatch_open [of shapes cur "fst p" "snd p"] by simp
  also have "\<dots> = (if isPathClosed then
          (shapes @ [cur\<lparr>points := points cur @ map roundPoint (p # q # ps), isClosed := True\<rparr>],
           \<lparr>points = [], isClosed = False\<rparr>)
        else (shapes, cur\<lparr>points := points cur @ map roundPoint (p # q # ps)\<rparr>))"
    using "3.IH" [of "cur\<lparr>points := points cur @ [roundPoint p]\<rparr>"] by simp
  finally show ?case .
qed

lemma trim_nonempty: "s \<noteq> [] \<Longrightarrow> \<not> isSpace (hd s) \<Longrightarrow> trim s \<noteq> []"
proof -
  assume a: "s \<noteq> []" "\<not> isSpace (hd s)"
  then have d: "dropWhile isSpace s = s" by (cases s) simp_all
  have "\<not> list_all isSpace (rev s)" using a by (cases s) (auto simp: list_all_iff)
  then have "dropWhile isSpace (rev s) \<noteq> []"
    by (simp add: list_all_iff dropWhile_eq_Nil_conv)
  then show ?thesis by (simp add: trim_def d)
qed

lemma trim_id:
  assumes "s \<noteq> []" "\<not> isSpace (hd s)" "\<not> isSpace (last s)"
  shows "trim s = s"
proof -
  have d: "dropWhile isSpace s = s" using assms(1,2) by (cases s) simp_all
  have "hd (rev s) = last s" using assms(1) by (simp add: hd_rev)
  moreover have "rev s \<noteq> []" using assms(1) by simp
  ultimately have "dropWhile isSpace (rev s) = rev s"
    using assms(3) by (metis dropWhile.simps(2) list.collapse)
  then show ?thesis by (simp add: trim_def d)
qed

definition shapeText :: "point list \<Rightarrow> bool \<Rightarrow> string" where
  "shapeText pts isPathClosed = ''[\<newline>'' @ pointsToString pts isPathClosed @ ''\<newline>]''"

lemma pointsToString_nonempty: "pts \<noteq> [] \<Longrightarrow> pointsToString pts isPathClosed \<noteq> []"
  using pointTexts_head [of pts isPathClosed] by (auto simp: pointsToString_texts)

lemma shapeToString_text:
  "shapeToString shape = (if points shape = [] then [] else shapeText (points shape) (isClosed shape))"
  using pointsToString_nonempty [of "points shape" "isClosed shape"]
  by (simp add: shapeToString_def shapeText_def Let_def)

lemma parseBlock_shape:
  assumes "pts \<noteq> []"
  shows "parseBlock shapes (shapeText pts isPathClosed)
      = shapes @ [\<lparr>points = map roundPoint pts, isClosed = isPathClosed\<rparr>]"
proof -
  have "trim (shapeText pts isPathClosed) \<noteq> []"
    by (rule trim_nonempty) (simp_all add: shapeText_def isSpace_def)
  moreover have "scanCoords (shapeText pts isPathClosed) = pointTokens pts isPathClosed"
    unfolding shapeText_def by (rule scanCoords_shape [OF assms])
  ultimately show ?thesis
    using assms foldl_addMatch_points [OF assms, of shapes "\<lparr>points = [], isClosed = False\<rparr>" isPathClosed]
    by (simp add: parseBlock_def Let_def)
qed

subsection \<open>Splitting the text of a document\<close>

definition spaceFree :: "string \<Rightarrow> bool" where
  "spaceFree s \<longleftrightarrow> list_all (\<lambda>c. \<not> isSpace c) s"

lemma newline_space: "isSpace CHR 0x0A"
  by (simp add: isSpace_def)

lemma splitBlocks_spaceFree:
  "spaceFree a \<Longrightarrow> splitBlocks cur (a @ s) = splitBlocks (cur @ a) s"
proof (induction a arbitrary: cur)
  case Nil
  then show ?case by simp
next
  case (Cons c a)
  then have "c \<noteq> CHR 0x0A" using newline_space by (auto simp: spaceFree_def)
  then have "matchSeparator (c # a @ s) = None" by (simp add: matchSeparator_def)
  then have "splitBlocks cur ((c # a) @ s) = splitBlocks (cur @ [c]) (a @ s)" by simp
  also have "\<dots> = splitBlocks ((cur @ [c]) @ a) s"
    using Cons by (simp add: spaceFree_def)
  finally show ?case by simp
qed

lemma splitBlocks_newline:
  "\<not> isSpace c \<Longrightarrow> splitBlocks cur (CHR 0x0A # c # s) = splitBlocks (cur @ [CHR 0x0A]) (c # s)"
  by (simp add: matchSeparator_def)

lemma splitBlocks_blank:
  "\<not> isSpace c \<Longrightarrow> splitBlocks cur (CHR 0x0A # CHR 0x0A # c # s) = cur # splitBlocks [] (c # s)"
  by (simp add: matchSeparator_def newline_space)

lemma digit_not_space: "isDigit c \<Longrightarrow> \<not> isSpace c"
  by (auto simp: isDigit_def isSpace_def)

lemma spaceFree_append [simp]: "spaceFree (a @ b) \<longleftrightarrow> spaceFree a \<and> spaceFree b"
  by (simp add: spaceFree_def)

lemma spaceFree_Cons [simp]: "spaceFree (c # s) \<longleftrightarrow> \<not> isSpace c \<and> spaceFree s"
  by (simp add: spaceFree_def)

lemma spaceFree_Nil [simp]: "spaceFree []"
  by (simp add: spaceFree_def)

lemma spaceFree_digits: "list_all isDigit ds \<Longrightarrow> spaceFree ds"
  by (auto simp: spaceFree_def list_all_iff digit_not_space)

lemma spaceFree_coord: "spaceFree (coordToString v)"
proof -
  have f: "hundredths v mod 100 < 100" by simp
  have "spaceFree (fractionDigits (hundredths v mod 100))"
    using fractionDigits_cases [OF f] spaceFree_digits
    by (auto simp: spaceFree_def isSpace_def)
  moreover have "spaceFree (signText v)"
    by (simp add: signText_def spaceFree_def isSpace_def)
  moreover have "spaceFree (natToString (hundredths v div 100))"
    by (rule spaceFree_digits) (rule natToString_digits)
  ultimately show ?thesis by (simp add: coordToString_alt)
qed

lemma spaceFree_point: "spaceFree (pointToString isPathClosed p)"
proof -
  have "\<not> isSpace CHR ''[''" "\<not> isSpace CHR '',''" "\<not> isSpace CHR '']''"
    "\<not> isSpace CHR ''-''" "\<not> isSpace CHR ''1''"
    by (simp_all add: isSpace_def)
  then show ?thesis
    using spaceFree_coord by (simp add: pointToString_def)
qed

lemma pointToString_head: "\<exists>r. pointToString isPathClosed p = CHR ''['' # r"
  by (simp add: pointToString_def)

lemma splitBlocks_points:
  "pts \<noteq> [] \<Longrightarrow>
   splitBlocks cur (join '',\<newline>'' (pointTexts pts isPathClosed) @ CHR 0x0A # CHR '']'' # rest)
     = splitBlocks (cur @ join '',\<newline>'' (pointTexts pts isPathClosed) @ ''\<newline>]'') rest"
proof (induction pts isPathClosed arbitrary: cur rule: pointTexts.induct)
  case (1 isPathClosed)
  then show ?case by simp
next
  case (2 p isPathClosed)
  have "splitBlocks cur (pointToString isPathClosed p @ CHR 0x0A # CHR '']'' # rest)
      = splitBlocks (cur @ pointToString isPathClosed p) (CHR 0x0A # CHR '']'' # rest)"
    by (rule splitBlocks_spaceFree) (rule spaceFree_point)
  also have "\<dots> = splitBlocks ((cur @ pointToString isPathClosed p) @ [CHR 0x0A]) (CHR '']'' # rest)"
    by (rule splitBlocks_newline) (simp add: isSpace_def)
  also have "\<dots> = splitBlocks (((cur @ pointToString isPathClosed p) @ [CHR 0x0A]) @ '']'') rest"
    using splitBlocks_spaceFree [of "'']''" _ rest] by (simp add: spaceFree_def isSpace_def)
  finally show ?case by simp
next
  case (3 p q ps isPathClosed)
  let ?J = "join '',\<newline>'' (pointTexts (q # ps) isPathClosed)"
  have ne: "pointTexts (q # ps) isPathClosed \<noteq> []" by (simp add: pointTexts_Nil)
  obtain r where r: "?J = CHR ''['' # r"
    using pointTexts_head [of "q # ps" isPathClosed] by auto
  have j: "join '',\<newline>'' (pointTexts (p # q # ps) isPathClosed) = pointToString False p @ '','' @ CHR 0x0A # ?J"
    using ne by (simp add: join_Cons)
  have "splitBlocks cur ((pointToString False p @ '','') @ CHR 0x0A # ?J @ CHR 0x0A # CHR '']'' # rest)
      = splitBlocks (cur @ pointToString False p @ '','') (CHR 0x0A # ?J @ CHR 0x0A # CHR '']'' # rest)"
    by (rule splitBlocks_spaceFree) (simp add: spaceFree_point, simp add: spaceFree_def isSpace_def)
  also have "\<dots> = splitBlocks ((cur @ pointToString False p @ '','') @ [CHR 0x0A]) (?J @ CHR 0x0A # CHR '']'' # rest)"
    unfolding r append_Cons by (rule splitBlocks_newline) (simp add: isSpace_def)
  also have "\<dots> = splitBlocks (((cur @ pointToString False p @ '','') @ [CHR 0x0A]) @ ?J @ ''\<newline>]'') rest"
    by (rule "3.IH") simp
  finally show ?case unfolding j by simp
qed

lemma splitBlocks_shape:
  assumes "pts \<noteq> []"
  shows "splitBlocks cur (shapeText pts isPathClosed @ rest)
           = splitBlocks (cur @ shapeText pts isPathClosed) rest"
proof -
  let ?J = "join '',\<newline>'' (pointTexts pts isPathClosed)"
  obtain r where r: "?J = CHR ''['' # r"
    using pointTexts_head [OF assms, of isPathClosed] by auto
  have "splitBlocks cur (''['' @ CHR 0x0A # ?J @ CHR 0x0A # CHR '']'' # rest)
      = splitBlocks (cur @ ''['') (CHR 0x0A # ?J @ CHR 0x0A # CHR '']'' # rest)"
    by (rule splitBlocks_spaceFree) (simp add: spaceFree_def isSpace_def)
  also have "\<dots> = splitBlocks ((cur @ ''['') @ [CHR 0x0A]) (?J @ CHR 0x0A # CHR '']'' # rest)"
    unfolding r append_Cons by (rule splitBlocks_newline) (simp add: isSpace_def)
  also have "\<dots> = splitBlocks (((cur @ ''['') @ [CHR 0x0A]) @ ?J @ ''\<newline>]'') rest"
    by (rule splitBlocks_points [OF assms])
  finally show ?thesis
    by (simp add: shapeText_def pointsToString_texts)
qed

lemma shapeText_head: "\<exists>r. shapeText pts isPathClosed = CHR ''['' # r"
  by (simp add: shapeText_def)

lemma splitBlocks_document:
  "doc \<noteq> [] \<Longrightarrow> \<forall>sh \<in> set doc. points sh \<noteq> [] \<Longrightarrow>
   splitBlocks [] (join ''\<newline>\<newline>'' (map (\<lambda>sh. shapeText (points sh) (isClosed sh)) doc))
     = map (\<lambda>sh. shapeText (points sh) (isClosed sh)) doc"
proof (induction doc)
  case Nil
  then show ?case by simp
next
  case (Cons sh doc)
  let ?st = "\<lambda>sh. shapeText (points sh) (isClosed sh)"
  have ne: "points sh \<noteq> []" using Cons.prems by simp
  show ?case
  proof (cases doc)
    case Nil
    have "splitBlocks [] (?st sh @ []) = splitBlocks ([] @ ?st sh) []"
      by (rule splitBlocks_shape [OF ne])
    then show ?thesis using Nil by simp
  next
    case (Cons sh2 doc2)
    let ?J = "join ''\<newline>\<newline>'' (map ?st doc)"
    have dne: "doc \<noteq> []" using Cons by simp
    have "\<exists>r. ?J = CHR ''['' # r"
      using shapeText_head [of "points sh2" "isClosed sh2"]
      unfolding Cons by (cases doc2) auto
    then obtain r where r: "?J = CHR ''['' # r" by blast
    have "join ''\<newline>\<newline>'' (map ?st (sh # doc)) = ?st sh @ CHR 0x0A # CHR 0x0A # ?J"
      using dne by (simp add: join_Cons)
    moreover have "splitBlocks [] (?st sh @ CHR 0x0A # CHR 0x0A # ?J)
        = splitBlocks ([] @ ?st sh) (CHR 0x0A # CHR 0x0A # ?J)"
      by (rule splitBlocks_shape [OF ne])
    moreover have "splitBlocks (?st sh) (CHR 0x0A # CHR 0x0A # ?J) = ?st sh # splitBlocks [] ?J"
      unfolding r by (rule splitBlocks_blank) (simp add: isSpace_def)
    moreover have "splitBlocks [] ?J = map ?st doc"
      using Cons.IH dne Cons.prems by simp
    ultimately show ?thesis by simp
  qed
qed

subsection \<open>Deserializing the text of a document\<close>

lemma normalize_id: "CHR 0x0D \<notin> set s \<Longrightarrow> normalizeLineEndings s = s"
  by (induction s rule: normalizeLineEndings.induct) auto

lemma set_join: "c \<in> set (join sep xs) \<Longrightarrow> c \<in> set sep \<or> (\<exists>x \<in> set xs. c \<in> set x)"
  by (induction sep xs rule: join.induct) auto

lemma spaceFree_no_cr: "spaceFree s \<Longrightarrow> CHR 0x0D \<notin> set s"
  by (auto simp: spaceFree_def list_all_iff isSpace_def)

lemma pointTexts_spaceFree: "t \<in> set (pointTexts pts isPathClosed) \<Longrightarrow> spaceFree t"
  by (induction pts isPathClosed rule: pointTexts.induct) (auto simp: spaceFree_point)

lemma shapeText_no_cr: "CHR 0x0D \<notin> set (shapeText pts isPathClosed)"
proof
  assume "CHR 0x0D \<in> set (shapeText pts isPathClosed)"
  then have "CHR 0x0D \<in> set (join '',\<newline>'' (pointTexts pts isPathClosed))"
    by (auto simp: shapeText_def pointsToString_texts)
  from set_join [OF this] obtain t where "t \<in> set (pointTexts pts isPathClosed)" "CHR 0x0D \<in> set t"
    by auto
  then show False using pointTexts_spaceFree spaceFree_no_cr by blast
qed

definition shapeTexts :: "Shape list \<Rightarrow> string list" where
  "shapeTexts doc = map (\<lambda>sh. shapeText (points sh) (isClosed sh)) (filter (\<lambda>sh. points sh \<noteq> []) doc)"

lemma shapesToString_texts: "shapesToString doc = join ''\<newline>\<newline>'' (shapeTexts doc)"
proof -
  have "filter (\<lambda>s. s \<noteq> []) (map shapeToString doc) = shapeTexts doc"
    unfolding shapeTexts_def
    by (induction doc) (auto simp: shapeToString_text shapeText_def)
  then show ?thesis by (simp add: shapesToString_def)
qed

lemma shapesToString_no_cr: "CHR 0x0D \<notin> set (shapesToString doc)"
proof
  assume "CHR 0x0D \<in> set (shapesToString doc)"
  from set_join [OF this [unfolded shapesToString_texts]]
  obtain t where "t \<in> set (shapeTexts doc)" "CHR 0x0D \<in> set t" by auto
  then show False using shapeText_no_cr by (auto simp: shapeTexts_def)
qed

lemma join_nonempty_last: "xs \<noteq> [] \<Longrightarrow> last xs \<noteq> [] \<Longrightarrow> join sep xs \<noteq> []"
  by (induction sep xs rule: join.induct) auto

lemma last_join: "xs \<noteq> [] \<Longrightarrow> last xs \<noteq> [] \<Longrightarrow> last (join sep xs) = last (last xs)"
proof (induction sep xs rule: join.induct)
  case (1 sep)
  then show ?case by simp
next
  case (2 sep s)
  then show ?case by simp
next
  case (3 sep s t ss)
  then have "join sep (t # ss) \<noteq> []"
    using join_nonempty_last [of "t # ss" sep] by simp
  then have "last (join sep (s # t # ss)) = last (join sep (t # ss))" by simp
  then show ?case using 3 by simp
qed

lemma hd_join: "xs \<noteq> [] \<Longrightarrow> hd xs \<noteq> [] \<Longrightarrow> hd (join sep xs) = hd (hd xs)"
  by (induction sep xs rule: join.induct) auto

lemma join_nonempty: "xs \<noteq> [] \<Longrightarrow> hd xs \<noteq> [] \<Longrightarrow> join sep xs \<noteq> []"
  by (induction sep xs rule: join.induct) auto

lemma shapeTexts_ends:
  assumes "t \<in> set (shapeTexts doc)"
  shows "t \<noteq> [] \<and> hd t = CHR ''['' \<and> last t = CHR '']''"
  using assms by (auto simp: shapeTexts_def shapeText_def)

lemma trim_document:
  assumes "shapeTexts doc \<noteq> []"
  shows "trim (shapesToString doc) = shapesToString doc" and "shapesToString doc \<noteq> []"
proof -
  let ?ts = "shapeTexts doc"
  have h: "hd ?ts \<in> set ?ts" and l: "last ?ts \<in> set ?ts" using assms by simp_all
  have ne: "join ''\<newline>\<newline>'' ?ts \<noteq> []"
    using assms shapeTexts_ends [OF h] by (intro join_nonempty) simp_all
  have "hd (join ''\<newline>\<newline>'' ?ts) = CHR ''[''"
    using hd_join [OF assms, of "''\<newline>\<newline>''"] shapeTexts_ends [OF h] by simp
  moreover have "last (join ''\<newline>\<newline>'' ?ts) = CHR '']''"
    using last_join [OF assms, of "''\<newline>\<newline>''"] shapeTexts_ends [OF l] by simp
  ultimately show "trim (shapesToString doc) = shapesToString doc"
    unfolding shapesToString_texts using ne by (intro trim_id) (simp_all add: isSpace_def)
  show "shapesToString doc \<noteq> []" unfolding shapesToString_texts by (rule ne)
qed

lemma foldl_parseBlock_shapes:
  "\<forall>sh \<in> set doc. points sh \<noteq> [] \<Longrightarrow>
   foldl parseBlock acc (map (\<lambda>sh. shapeText (points sh) (isClosed sh)) doc)
     = acc @ map roundShape doc"
proof (induction doc arbitrary: acc)
  case Nil
  then show ?case by simp
next
  case (Cons sh doc)
  then have "points sh \<noteq> []" by simp
  from parseBlock_shape [OF this, of acc "isClosed sh"]
  have "parseBlock acc (shapeText (points sh) (isClosed sh)) = acc @ [roundShape sh]"
    by (simp add: roundShape_def)
  then show ?case using Cons by simp
qed

lemma parseShapes_document:
  "parseShapes (shapesToString doc) = map roundShape (filter (\<lambda>sh. points sh \<noteq> []) doc)"
proof (cases "shapeTexts doc = []")
  case True
  then have "shapesToString doc = []" by (simp add: shapesToString_texts)
  moreover have "filter (\<lambda>sh. points sh \<noteq> []) doc = []"
    using True by (simp add: shapeTexts_def)
  ultimately show ?thesis by (simp add: parseShapes_def trim_def)
next
  case False
  let ?doc' = "filter (\<lambda>sh. points sh \<noteq> []) doc"
  have d: "?doc' \<noteq> []" using False by (simp add: shapeTexts_def)
  have n: "normalizeLineEndings (shapesToString doc) = shapesToString doc"
    by (rule normalize_id) (rule shapesToString_no_cr)
  have t: "trim (shapesToString doc) = shapesToString doc" and ne: "shapesToString doc \<noteq> []"
    using trim_document [OF False] by simp_all
  have s: "splitBlocks [] (shapesToString doc) = map (\<lambda>sh. shapeText (points sh) (isClosed sh)) ?doc'"
    unfolding shapesToString_texts shapeTexts_def
    by (rule splitBlocks_document [OF d]) simp
  have "foldl parseBlock [] (map (\<lambda>sh. shapeText (points sh) (isClosed sh)) ?doc') = [] @ map roundShape ?doc'"
    by (rule foldl_parseBlock_shapes) simp
  then show ?thesis
    unfolding parseShapes_def Let_def n t s using ne by simp
qed

subsection \<open>Serializing again\<close>

lemma pointToString_round: "pointToString b (roundPoint p) = pointToString b p"
  by (simp add: pointToString_def roundPoint_def coordToString_idem)

lemma pointTexts_round: "pointTexts (map roundPoint pts) isPathClosed = pointTexts pts isPathClosed"
  by (induction pts isPathClosed rule: pointTexts.induct) (simp_all add: pointToString_round)

lemma shapeToString_round: "shapeToString (roundShape sh) = shapeToString sh"
  by (simp add: shapeToString_text shapeText_def pointsToString_texts roundShape_def pointTexts_round)

lemma shapesToString_round: "shapesToString (map roundShape doc) = shapesToString doc"
  by (simp add: shapesToString_def comp_def shapeToString_round)

lemma shapesToString_filter:
  "shapesToString (filter (\<lambda>sh. points sh \<noteq> []) doc) = shapesToString doc"
proof -
  have "shapeTexts (filter (\<lambda>sh. points sh \<noteq> []) doc) = shapeTexts doc"
    by (simp add: shapeTexts_def)
  then show ?thesis by (simp add: shapesToString_texts)
qed

text \<open>
  The numbers that the source prints without an exponent: below 1e21 in magnitude, both
  as given to \<open>toFixed\<close> and after rounding.
\<close>

definition plainNumber :: "real \<Rightarrow> bool" where
  "plainNumber v \<longleftrightarrow> \<bar>v\<bar> < 10 ^ 21 \<and> \<bar>parseFloat (toFixed2 v)\<bar> < 10 ^ 21"

definition coordsInRange :: "Shape list \<Rightarrow> bool" where
  "coordsInRange doc \<longleftrightarrow>
     list_all (\<lambda>sh. list_all (\<lambda>p. plainNumber (fst p) \<and> plainNumber (snd p)) (points sh)) doc"

text \<open>
  C5 (amended): for every document whose coordinates are printed without an exponent,
  the text that \<open>shapesToString\<close> produces is reproduced exactly when it is
  deserialized and serialized again.
\<close>

theorem shapesToString_roundtrip:
  assumes "coordsInRange doc"
  shows "shapesToString (parseShapes (shapesToString doc)) = shapesToString doc"
  unfolding parseShapes_document shapesToString_round shapesToString_filter ..

lemmas number_defs = coordToString_def numberToString_def toFixed2_def natToString.simps
  digitChar_def Let_def parseFloat_def parseUnsigned_def isDigit_def digitsValue_def digitValue_def

definition exampleDoc :: "Shape list" where
  "exampleDoc = [\<lparr>points = [(0, 0), (4183 / 400, - 3)], isClosed = True\<rparr>,
                 \<lparr>points = [], isClosed = False\<rparr>,
                 \<lparr>points = [(5 / 2, 1)], isClosed = False\<rparr>]"

lemma example_coords:
  "coordToString 0 = ''0''" "coordToString (4183 / 400) = ''10.46''" "coordToString (- 3) = ''-3''"
  "coordToString (5 / 2) = ''2.5''" "coordToString 1 = ''1''"
  by (simp_all add: number_defs)

lemma example_text:
  "shapesToString exampleDoc = ''[\<newline>[0,0],\<newline>[10.46,-3,-1]\<newline>]\<newline>\<newline>[\<newline>[2.5,1]\<newline>]''"
  by (simp add: shapesToString_def shapeToString_def exampleDoc_def pointsToString_def
      pointToString_def example_coords Let_def)

lemma example_fixed:
  "parseFloat (toFixed2 0) = 0" "parseFloat (toFixed2 (4183 / 400)) = 1046 / 100"
  "parseFloat (toFixed2 (- 3)) = - 3" "parseFloat (toFixed2 (5 / 2)) = 5 / 2" "parseFloat (toFixed2 1) = 1"
  by (simp_all add: number_defs)

lemma example_range: "coordsInRange exampleDoc"
  by (simp add: coordsInRange_def exampleDoc_def plainNumber_def example_fixed)

theorem shapesToString_roundtrip_witness:
  "coordsInRange exampleDoc \<and>
   shapesToString exampleDoc = ''[\<newline>[0,0],\<newline>[10.46,-3,-1]\<newline>]\<newline>\<newline>[\<newline>[2.5,1]\<newline>]'' \<and>
   shapesToString (parseShapes ''[\<newline>[0,0],\<newline>[10.46,-3,-1]\<newline>]\<newline>\<newline>[\<newline>[2.5,1]\<newline>]'')
     = ''[\<newline>[0,0],\<newline>[10.46,-3,-1]\<newline>]\<newline>\<newline>[\<newline>[2.5,1]\<newline>]''"
  using shapesToString_roundtrip [OF example_range] example_range
  by (simp add: example_text)

text \<open>
  C5 as stated fails for the text of the pipeline: \<open>processSVG\<close> joins the points of a
  shape without the enclosing brackets that \<open>shapesToString\<close> writes, so serializing
  its deserialized output adds them.
\<close>

definition lineDoc :: svgDoc where
  "lineDoc = \<lparr>parserError = False, hasRoot = True, viewBox = None, widthAttr = 0,
     heightAttr = 0, elements = [LineEl 0 0 1 1]\<rparr>"

lemma line_subpath:
  "processSubPath cv 1 False 0 False [(0, 0), (1, 1)] = Some (Some ([(0, 0), (1, 1)], False))"
  by (simp add: processSubPath_def transformPoints_def rdp_short filterClosePoints_def closureFlag_def)

lemma line_text: "pointsToString [(0, 0), (1, 1)] False = ''[0,0],\<newline>[1,1]''"
  by (simp add: pointsToString_def pointToString_def example_coords)

lemma line_output: "processSVG lineDoc 1 False 0 = Some (Inr ''[0,0],\<newline>[1,1]'')"
proof -
  have "processElement cv 1 False 0 (LineEl 0 0 1 1) = Some [''[0,0],\<newline>[1,1]'']" for cv
    unfolding processElement_def line_path
    by (simp add: isBackgroundFrame_def line_subpath line_text)
  then show ?thesis
    by (simp add: processSVG_def lineDoc_def Let_def)
qed

lemma line_parsed:
  "parseShapes ''[0,0],\<newline>[1,1]'' = [\<lparr>points = [(0, 0), (1, 1)], isClosed = False\<rparr>]"
  apply (simp add: parseShapes_def trim_def isSpace_def matchSeparator_def)
  apply (simp add: parseBlock_def trim_def isSpace_def)
  apply (simp add: matchCoord_def matchNumber_def matchDigits_def matchFraction_def matchClose_def
      isSpace_def isDigit_def)
  apply (simp add: addMatch_def parseFloat_def parseUnsigned_def isDigit_def digitsValue_def
      digitValue_def)
  done

lemma line_again:
  "shapesToString [\<lparr>points = [(0, 0), (1, 1)], isClosed = False\<rparr>] = ''[\<newline>[0,0],\<newline>[1,1]\<newline>]''"
  by (simp add: shapesToString_def shapeToString_def line_text)

theorem pipeline_text_roundtrip_counterexample:
  "processSVG lineDoc 1 False 0 = Some (Inr ''[0,0],\<newline>[1,1]'') \<and>
   shapesToString (parseShapes ''[0,0],\<newline>[1,1]'') = ''[\<newline>[0,0],\<newline>[1,1]\<newline>]'' \<and>
   shapesToString (parseShapes ''[0,0],\<newline>[1,1]'') \<noteq> ''[0,0],\<newline>[1,1]''"
  by (simp add: line_output line_parsed line_again)

end
